theory Spec2Isabelle
  imports Main "HOL-Library.Word" "HOL-Library.Sublist"
begin

section \<open>Strings, tokens and the two regular expressions\<close>

text \<open>
  A Python \<open>str\<close> is a sequence of Unicode code points. A code point is a natural
  number here, so that the whitespace \<open>str.strip\<close> removes, the Chinese file-name
  suffixes and the ASCII-only token pattern are all what they are in the source.
  \<open>ascii\<close> turns an ASCII literal into such a string.
\<close>

type_synonym pystr = "nat list"

definition ascii :: "string \<Rightarrow> pystr" where
  "ascii s = map of_char s"

text \<open>
  \<open>mask_pat = re.compile(r'\[MASK_[0-9A-F]{8}\]')\<close>. The pattern has no alternative
  and no repetition of variable length: it matches at a position exactly when the next
  15 code points are \<open>[MASK_\<close>, eight of \<open>0-9A-F\<close> and \<open>]\<close>.
\<close>

definition is_hex :: "nat \<Rightarrow> bool" where
  "is_hex c \<longleftrightarrow> (48 \<le> c \<and> c \<le> 57) \<or> (65 \<le> c \<and> c \<le> 70)"

definition mask_match :: "pystr \<Rightarrow> bool" where
  "mask_match s \<longleftrightarrow>
     take 6 s = ascii ''[MASK_'' \<and>
     length (take 8 (drop 6 s)) = 8 \<and> list_all is_hex (take 8 (drop 6 s)) \<and>
     take 1 (drop 14 s) = ascii '']''"

text \<open>A well-formed token: a string the pattern matches as a whole.\<close>

definition is_token :: "pystr \<Rightarrow> bool" where
  "is_token t \<longleftrightarrow> mask_match t \<and> length t = 15"

text \<open>
  \<open>mask_pat.findall(text)\<close> and \<open>mask_pat.split(text)\<close>: the scan goes left to right,
  takes a match where it finds one and goes on behind it; \<open>findall\<close> returns the matches,
  \<open>split\<close> the pieces between them (always one more piece than matches).
\<close>

fun mask_findall :: "pystr \<Rightarrow> pystr list" where
  "mask_findall [] = []"
| "mask_findall (c # cs) =
     (if mask_match (c # cs) then take 15 (c # cs) # mask_findall (drop 14 cs)
      else mask_findall cs)"

fun mask_split :: "pystr \<Rightarrow> pystr list" where
  "mask_split [] = [[]]"
| "mask_split (c # cs) =
     (if mask_match (c # cs) then [] # mask_split (drop 14 cs)
      else (case mask_split cs of [] \<Rightarrow> [[c]] | p # ps \<Rightarrow> (c # p) # ps))"

text \<open>
  \<open>word_pat = re.compile("|".join(re.escape(w) for w in words))\<close>: an ordered choice
  between literal words. At a position the first word of the list that is a prefix of the
  rest of the text is the match.
\<close>

fun first_match :: "pystr list \<Rightarrow> pystr \<Rightarrow> pystr option" where
  "first_match [] s = None"
| "first_match (w # ws) s = (if prefix w s then Some w else first_match ws s)"

text \<open>
  \<open>repl\<close>, the replacement callback of \<open>_enc\<close>:
  \<open>self.mapping.get(match.group(0), match.group(0))\<close>.
\<close>

text \<open>
  A \<open>dict\<close> from \<open>str\<close> to \<open>str\<close> keeps its keys in the order of their first
  insertion, which \<open>sorted\<close> sees: it is a list of pairs, with \<open>d.get(k)\<close>,
  \<open>d[k] = v\<close> (an existing key keeps its place) and \<open>d.update(items)\<close>.
\<close>

type_synonym pydict = "(pystr \<times> pystr) list"

definition dict_get :: "pydict \<Rightarrow> pystr \<Rightarrow> pystr option" where
  "dict_get d k = map_of d k"

fun dict_set :: "pydict \<Rightarrow> pystr \<Rightarrow> pystr \<Rightarrow> pydict" where
  "dict_set [] k v = [(k, v)]"
| "dict_set ((k', v') # d) k v =
     (if k' = k then (k', v) # d else (k', v') # dict_set d k v)"

fun dict_update :: "pydict \<Rightarrow> pydict \<Rightarrow> pydict" where
  "dict_update d [] = d"
| "dict_update d ((k, v) # kvs) = dict_update (dict_set d k v) kvs"

definition repl :: "pydict \<Rightarrow> pystr \<Rightarrow> pystr" where
  "repl d w = (case dict_get d w of Some v \<Rightarrow> v | None \<Rightarrow> w)"

text \<open>
  \<open>word_pat.sub(repl, part)\<close> (Python 3.7 and later): the leftmost match is replaced and
  the scan goes on behind it. After an empty match the next match at the same position
  has to be non-empty (the flag \<open>adv\<close>); without one the code point there is copied.
  An empty match arises only when the empty string is a key of the mapping.
\<close>

function word_sub :: "pydict \<Rightarrow> pystr list \<Rightarrow> bool \<Rightarrow> pystr \<Rightarrow> pystr" where
  "word_sub d ws adv s =
     (case first_match (if adv then filter (\<lambda>w. w \<noteq> []) ws else ws) s of
        Some w \<Rightarrow>
          repl d w @
            (if w = [] then word_sub d ws True s
             else word_sub d ws False (drop (length w) s))
      | None \<Rightarrow> (case s of [] \<Rightarrow> [] | c # cs \<Rightarrow> c # word_sub d ws False cs))"
  by pat_completeness auto

termination word_sub
proof (relation "measure (\<lambda>(d, ws, adv, s). 2 * length s + (if adv then 0 else 1))")
  have first_match_mem: "w \<in> set ws \<and> prefix w s" if "first_match ws s = Some w"
    for ws and s w :: pystr
    using that by (induction ws) (auto split: if_splits)
  {
  show "wf (measure (\<lambda>(d, ws, adv, s). 2 * length s + (if adv then 0 else 1)))"
    by simp
next
  fix d :: pydict and ws adv s w
  assume m: "first_match (if adv then filter (\<lambda>w. w \<noteq> []) ws else ws) s = Some w"
    and e: "w = []"
  have "\<not> adv"
  proof
    assume adv
    with m have "w \<in> set (filter (\<lambda>w. w \<noteq> []) ws)"
      using first_match_mem by fastforce
    with e show False by simp
  qed
  then show "((d, ws, True, s), (d, ws, adv, s))
      \<in> measure (\<lambda>(d, ws, adv, s). 2 * length s + (if adv then 0 else 1))"
    by simp
next
  fix d :: pydict and ws adv s w
  assume m: "first_match (if adv then filter (\<lambda>w. w \<noteq> []) ws else ws) s = Some w"
    and ne: "w \<noteq> []"
  from m have "prefix w s" using first_match_mem by blast
  then have "length w \<le> length s"
    by (simp add: prefix_length_le)
  moreover from ne obtain k where "length w = Suc k"
    by (cases w) auto
  ultimately show "((d, ws, False, drop (length w) s), (d, ws, adv, s))
      \<in> measure (\<lambda>(d, ws, adv, s). 2 * length s + (if adv then 0 else 1))"
    by (cases adv) simp_all
next
  fix d :: pydict and ws :: "pystr list" and adv and s :: pystr and c cs
  assume "s = c # cs"
  then show "((d, ws, False, cs), (d, ws, adv, s))
      \<in> measure (\<lambda>(d, ws, adv, s). 2 * length s + (if adv then 0 else 1))"
    by simp
  }
qed

declare word_sub.simps [simp del]

text \<open>
  \<open>pat.sub(lambda m: self.reverse.get(m.group(0), m.group(0)), text)\<close> of \<open>_dec\<close>:
  the token pattern never matches the empty string, so the scan is the plain one.
\<close>

fun mask_sub :: "pydict \<Rightarrow> pystr \<Rightarrow> pystr" where
  "mask_sub r [] = []"
| "mask_sub r (c # cs) =
     (if mask_match (c # cs) then repl r (take 15 (c # cs)) @ mask_sub r (drop 14 cs)
      else c # mask_sub r cs)"

section \<open>The scrubber: \<open>build\<close>, \<open>_enc\<close>, \<open>_dec\<close>\<close>

datatype pyerr =
    IndexError
  | FileNotFoundError pystr
  | ValueError pystr
  | ImportError pystr
  | IsADirectoryError
  | UnicodeDecodeError
  | JSONDecodeError
  | AttributeError
  | TypeError
  | BadDocument
  | NoSuchFile pystr

record scrubber =
  mapping :: pydict
  reverse :: pydict
  json_paths :: "pystr list"

definition new_scrubber :: scrubber where
  "new_scrubber = \<lparr>mapping = [], reverse = [], json_paths = []\<rparr>"

text \<open>\<open>str.strip()\<close>: the code points with \<open>str.isspace()\<close> go, at both ends.\<close>

definition is_space :: "nat \<Rightarrow> bool" where
  "is_space c \<longleftrightarrow>
     (9 \<le> c \<and> c \<le> 13) \<or> (28 \<le> c \<and> c \<le> 32) \<or> c = 133 \<or> c = 160 \<or> c = 5760 \<or>
     (8192 \<le> c \<and> c \<le> 8202) \<or> c = 8232 \<or> c = 8233 \<or> c = 8239 \<or> c = 8287 \<or>
     c = 12288"

definition strip :: "pystr \<Rightarrow> pystr" where
  "strip s = rev (dropWhile is_space (rev (dropWhile is_space s)))"

text \<open>
  \<open>"[MASK_" + uuid.uuid4().hex[:8].upper() + "]"\<close>. The random source is the sequence
  of values \<open>uuid.uuid4()\<close> returns, 128 bits each; \<open>.hex\<close> is \<open>'%032x' % int\<close>.
  \<open>upper\<close> is \<open>str.upper\<close> on ASCII, all it meets here.
\<close>

type_synonym rng = "nat \<Rightarrow> 128 word"

definition hexdigit :: "nat \<Rightarrow> nat" where
  "hexdigit d = (if d < 10 then 48 + d else 87 + d)"

fun hex_digits :: "nat \<Rightarrow> nat \<Rightarrow> pystr" where
  "hex_digits 0 n = []"
| "hex_digits (Suc k) n = hexdigit (n div 16 ^ k mod 16) # hex_digits k n"

definition uuid_hex :: "128 word \<Rightarrow> pystr" where
  "uuid_hex u = hex_digits 32 (unat u)"

definition upper :: "pystr \<Rightarrow> pystr" where
  "upper s = map (\<lambda>c. if 97 \<le> c \<and> c \<le> 122 then c - 32 else c) s"

definition new_mask :: "128 word \<Rightarrow> pystr" where
  "new_mask u = ascii ''[MASK_'' @ upper (take 8 (uuid_hex u)) @ ascii '']''"

fun build :: "scrubber \<Rightarrow> pystr list \<Rightarrow> rng \<Rightarrow> scrubber \<times> rng" where
  "build s [] g = (s, g)"
| "build s (w0 # ws) g =
     (let w = strip w0 in
      if w \<noteq> [] \<and> dict_get (mapping s) w = None then
        let m = new_mask (g 0) in
        build (s\<lparr>mapping := dict_set (mapping s) w m,
                 reverse := dict_set (reverse s) m w\<rparr>) ws (\<lambda>n. g (Suc n))
      else build s ws g)"

text \<open>
  \<open>sorted(self.mapping.keys(), key=len, reverse=True)\<close>: a stable sort, longest first;
  words of one length keep the order of the dictionary.
\<close>

definition sorted_words :: "pydict \<Rightarrow> pystr list" where
  "sorted_words d = sort_key (\<lambda>w. - int (length w)) (map fst d)"

definition enc :: "scrubber \<Rightarrow> pystr \<Rightarrow> pyerr + pystr" where
  "enc s text =
     (if mapping s = [] then Inr text
      else
        let words = sorted_words (mapping s);
            parts = mask_split text;
            masks = mask_findall text;
            safe_parts = map (word_sub (mapping s) words False) parts
        in case safe_parts of
             [] \<Rightarrow> Inl IndexError
           | p0 # ps \<Rightarrow> Inr (foldl (\<lambda>out (mk, p). out @ mk @ p) p0 (zip masks ps)))"

definition dec :: "scrubber \<Rightarrow> pystr \<Rightarrow> pyerr + pystr" where
  "dec s text = Inr (mask_sub (reverse s) text)"

text \<open>
  What \<open>build\<close> maintains from the empty store on: no empty word, tokens as values,
  every entry of \<open>reverse\<close> the converse of an entry of \<open>mapping\<close>, every token of
  \<open>mapping\<close> a key of \<open>reverse\<close>.
\<close>

definition store_inv :: "scrubber \<Rightarrow> bool" where
  "store_inv s \<longleftrightarrow>
     [] \<notin> fst ` set (mapping s) \<and>
     (\<forall>t \<in> snd ` set (mapping s). is_token t) \<and>
     (\<forall>t w. dict_get (reverse s) t = Some w \<longrightarrow> dict_get (mapping s) w = Some t) \<and>
     (\<forall>w t. dict_get (mapping s) w = Some t \<longrightarrow> dict_get (reverse s) t \<noteq> None)"

text \<open>
  A random source for the examples: the leading 32 bits of the \<open>n\<close>-th value are
  \<open>n + 1\<close>, so its tokens are \<open>[MASK_00000001]\<close>, \<open>[MASK_00000002]\<close>, ...
\<close>

definition sample_rng :: rng where
  "sample_rng n = word_of_nat (n + 1) * 0x1000000000000000000000000"

section \<open>The world outside: paths, files, JSON\<close>

text \<open>
  \<open>os.path\<close> is taken as \<open>posixpath\<close>: \<open>/\<close> (code point 47) separates, \<open>.\<close> (46)
  starts an extension. \<open>lower\<close> is \<open>str.lower\<close> on ASCII. No other code point
  lowers to a letter of the extensions the program knows, so the handler chosen is that
  of the source; only the extension quoted in the error for an unknown format may differ.
\<close>

definition path_split :: "pystr \<Rightarrow> pystr \<times> pystr" where
  "path_split p =
     (rev (dropWhile (\<lambda>c. c \<noteq> 47) (rev p)), rev (takeWhile (\<lambda>c. c \<noteq> 47) (rev p)))"

definition dirname :: "pystr \<Rightarrow> pystr" where
  "dirname p =
     (let head = fst (path_split p) in
      if head \<noteq> [] \<and> head \<noteq> replicate (length head) 47
      then rev (dropWhile (\<lambda>c. c = 47) (rev head)) else head)"

definition basename :: "pystr \<Rightarrow> pystr" where
  "basename p = snd (path_split p)"

definition splitext :: "pystr \<Rightarrow> pystr \<times> pystr" where
  "splitext p =
     (let b = basename p;
          ext = rev (takeWhile (\<lambda>c. c \<noteq> 46) (rev b));
          stem = rev (drop 1 (dropWhile (\<lambda>c. c \<noteq> 46) (rev b)))
      in if 46 \<in> set b \<and> (\<exists>c \<in> set stem. c \<noteq> 46)
         then (take (length p - Suc (length ext)) p, 46 # ext) else (p, []))"

definition path_join :: "pystr \<Rightarrow> pystr \<Rightarrow> pystr" where
  "path_join a b =
     (if take 1 b = [47] then b
      else if a = [] \<or> last a = 47 then a @ b else a @ [47] @ b)"

definition lower :: "pystr \<Rightarrow> pystr" where
  "lower s = map (\<lambda>c. if 65 \<le> c \<and> c \<le> 90 then c + 32 else c) s"

text \<open>\<open>os.path.dirname(p) or "."\<close>\<close>

definition dir_or_dot :: "pystr \<Rightarrow> pystr" where
  "dir_or_dot p = (if dirname p = [] then ascii ''.'' else dirname p)"

definition MAPPING_SUFFIX :: pystr where
  "MAPPING_SUFFIX = ascii ''_mask_mapping.json''"

text \<open>The path \<open>mp\<close> that \<open>save\<close> and \<open>auto_load\<close> compute from a document path.\<close>

definition mapping_path :: "pystr \<Rightarrow> pystr" where
  "mapping_path p =
     path_join (dir_or_dot p) (fst (splitext (basename p)) @ MAPPING_SUFFIX)"

text \<open>What \<open>json.load\<close> returns. Numbers are integers here.\<close>

datatype json =
    JNull
  | JBool bool
  | JNum int
  | JStr pystr
  | JArr "json list"
  | JObj "(pystr \<times> json) list"

text \<open>
  Documents, as far as the handlers look at them: a paragraph is the list of the texts
  of its runs; a Word document has paragraphs and tables (rows of cells of paragraphs);
  a presentation has slides of shapes, a shape with or without a text frame and with or
  without a table; a workbook has sheets of rows of cells, a cell holding a string or
  something else.
\<close>

type_synonym para = "pystr list"

datatype docx = Docx (paragraphs: "para list") (tables: "para list list list list")

datatype shape = Shape (text_frame: "para list option") (shape_table: "para list list list option")

datatype pptx = Pptx (slides: "shape list list")

datatype cell = CellStr pystr | CellOther

datatype xlsx = Xlsx (worksheets: "cell list list list")

text \<open>
  A path names nothing, a directory or a file. A file is of one kind: a text, given by
  what each codec of \<open>_handle_txt\<close> decodes it to (\<open>None\<close>: \<open>UnicodeDecodeError\<close>), a
  JSON document, or a document of one of the three office formats. Read through the
  reader of another kind it is what that reader rejects. Writing fails only on a
  directory; what is written is always encodable.
\<close>

datatype codec = UTF8 | UTF8_SIG | GBK

datatype fobj =
    Folder
  | TextFile "codec \<Rightarrow> pystr option"
  | JsonFile json
  | DocxFile docx
  | PptxFile pptx
  | XlsxFile xlsx

record world =
  fs :: "pystr \<Rightarrow> fobj option"
  DOCX_OK :: bool
  PPTX_OK :: bool
  XLSX_OK :: bool

definition path_exists :: "world \<Rightarrow> pystr \<Rightarrow> bool" where
  "path_exists w p \<longleftrightarrow> fs w p \<noteq> None"

definition write_file :: "world \<Rightarrow> pystr \<Rightarrow> fobj \<Rightarrow> pyerr + world" where
  "write_file w p f =
     (case fs w p of
        Some Folder \<Rightarrow> Inl IsADirectoryError
      | _ \<Rightarrow> Inr (w\<lparr>fs := (fs w)(p \<mapsto> f)\<rparr>))"

text \<open>\<open>open(src, "r", encoding=enc).read()\<close>\<close>

definition read_text :: "world \<Rightarrow> pystr \<Rightarrow> codec \<Rightarrow> pyerr + pystr" where
  "read_text w p c =
     (case fs w p of
        None \<Rightarrow> Inl (NoSuchFile p)
      | Some Folder \<Rightarrow> Inl IsADirectoryError
      | Some (TextFile d) \<Rightarrow> (case d c of None \<Rightarrow> Inl UnicodeDecodeError | Some s \<Rightarrow> Inr s)
      | Some _ \<Rightarrow> Inl UnicodeDecodeError)"

text \<open>\<open>with open(path, "r", encoding="utf-8") as f: d = json.load(f)\<close>\<close>

definition read_json :: "world \<Rightarrow> pystr \<Rightarrow> pyerr + json" where
  "read_json w p =
     (case fs w p of
        None \<Rightarrow> Inl (NoSuchFile p)
      | Some Folder \<Rightarrow> Inl IsADirectoryError
      | Some (JsonFile j) \<Rightarrow> Inr j
      | Some (TextFile d) \<Rightarrow>
          (case d UTF8 of None \<Rightarrow> Inl UnicodeDecodeError | Some s \<Rightarrow> Inl JSONDecodeError)
      | Some _ \<Rightarrow> Inl UnicodeDecodeError)"

section \<open>\<open>save\<close>, \<open>load\<close>, \<open>auto_load\<close>\<close>

definition dict_json :: "pydict \<Rightarrow> json" where
  "dict_json d = JObj (map (\<lambda>(k, v). (k, JStr v)) d)"

definition snapshot :: "scrubber \<Rightarrow> json" where
  "snapshot s =
     JObj [(ascii ''mapping'', dict_json (mapping s)), (ascii ''reverse'', dict_json (reverse s))]"

definition save :: "scrubber \<Rightarrow> world \<Rightarrow> pystr \<Rightarrow> (pyerr + pystr) \<times> scrubber \<times> world" where
  "save s w out_path =
     (let mp = mapping_path out_path in
      case write_file w mp (JsonFile (snapshot s)) of
        Inl e \<Rightarrow> (Inl e, s, w)
      | Inr w' \<Rightarrow> (Inr mp, s\<lparr>json_paths := json_paths s @ [mp]\<rparr>, w'))"

text \<open>
  \<open>dict.update(x)\<close> for a value \<open>x\<close> that came out of \<open>json.load\<close>: an object gives its
  members; an empty list or string gives nothing; a non-empty string fails on its first
  character, a number, a truth value or \<open>null\<close> is not iterable. The store of this
  model maps strings to strings (\<open># word -> mask\<close>, \<open># mask -> word\<close>): \<open>NotStr\<close>
  stands for an update the source performs without an error and that puts something
  else into the store, an object with a member that is not a string or a non-empty list
  (taken as a list of pairs); the model does not follow the store from there.
\<close>

datatype upd = Items pydict | UpdateError pyerr | NotStr

fun str_items :: "(pystr \<times> json) list \<Rightarrow> pydict option" where
  "str_items [] = Some []"
| "str_items ((k, JStr v) # kvs) =
     (case str_items kvs of None \<Rightarrow> None | Some d \<Rightarrow> Some ((k, v) # d))"
| "str_items ((k, _) # kvs) = None"

fun update_arg :: "json \<Rightarrow> upd" where
  "update_arg (JObj kvs) = (case str_items kvs of None \<Rightarrow> NotStr | Some d \<Rightarrow> Items d)"
| "update_arg (JArr []) = Items []"
| "update_arg (JArr (x # xs)) = NotStr"
| "update_arg (JStr []) = Items []"
| "update_arg (JStr (c # cs)) =
     UpdateError (ValueError
       (ascii ''dictionary update sequence element #0 has length 1; 2 is required''))"
| "update_arg _ = UpdateError TypeError"

text \<open>\<open>d.get(k, default)\<close> on the object \<open>json.load\<close> returned.\<close>

definition json_get :: "(pystr \<times> json) list \<Rightarrow> pystr \<Rightarrow> json \<Rightarrow> json" where
  "json_get kvs k dflt = (case map_of kvs k of Some v \<Rightarrow> v | None \<Rightarrow> dflt)"

text \<open>
  \<open>load\<close> returns, raises (the store as the exception leaves it: \<open>mapping\<close> may be
  updated already) or leaves the model.
\<close>

datatype load_result = Loaded scrubber | LoadRaised pyerr scrubber | LoadNotStr

definition load :: "scrubber \<Rightarrow> world \<Rightarrow> pystr \<Rightarrow> load_result" where
  "load s w path =
     (case read_json w path of
        Inl e \<Rightarrow> LoadRaised e s
      | Inr (JObj kvs) \<Rightarrow>
          (case update_arg (json_get kvs (ascii ''mapping'') (JObj [])) of
             UpdateError e \<Rightarrow> LoadRaised e s
           | NotStr \<Rightarrow> LoadNotStr
           | Items m \<Rightarrow>
               (let s1 = s\<lparr>mapping := dict_update (mapping s) m\<rparr> in
                case update_arg (json_get kvs (ascii ''reverse'')
                       (json_get kvs (ascii ''reverse_mapping'') (JObj []))) of
                  UpdateError e \<Rightarrow> LoadRaised e s1
                | NotStr \<Rightarrow> LoadNotStr
                | Items r \<Rightarrow> Loaded (s1\<lparr>reverse := dict_update (reverse s1) r\<rparr>)))
      | Inr _ \<Rightarrow> LoadRaised AttributeError s)"

text \<open>\<open>auto_load\<close>: \<open>None\<close> where the source returns \<open>(False, mp)\<close>.\<close>

definition auto_load :: "scrubber \<Rightarrow> world \<Rightarrow> pystr \<Rightarrow> load_result option \<times> pystr" where
  "auto_load s w doc_path =
     (let mp = mapping_path doc_path in
      if path_exists w mp then (Some (load s w mp), mp) else (None, mp))"

text \<open>
  The snapshot the specification describes: a JSON object with the members \<open>mapping\<close>
  and \<open>reverse\<close> (or, for the latter, its legacy name), both objects with strings as
  values.
\<close>

definition is_str_dict :: "json \<Rightarrow> bool" where
  "is_str_dict j = (case j of JObj kvs \<Rightarrow> str_items kvs \<noteq> None | _ \<Rightarrow> False)"

definition valid_snapshot :: "json \<Rightarrow> bool" where
  "valid_snapshot j =
     (case j of
        JObj kvs \<Rightarrow>
          (case map_of kvs (ascii ''mapping'') of Some m \<Rightarrow> is_str_dict m | None \<Rightarrow> False) \<and>
          (case map_of kvs (ascii ''reverse'') of
             Some r \<Rightarrow> is_str_dict r
           | None \<Rightarrow>
               (case map_of kvs (ascii ''reverse_mapping'') of
                  Some r \<Rightarrow> is_str_dict r | None \<Rightarrow> False))
      | _ \<Rightarrow> False)"

section \<open>The document handlers\<close>

text \<open>
  The transformation \<open>fn\<close> handed to a handler is \<open>_enc\<close> or \<open>_dec\<close>; an error of it
  ends the handler as the exception would.
\<close>

fun map_err :: "('a \<Rightarrow> pyerr + 'b) \<Rightarrow> 'a list \<Rightarrow> pyerr + 'b list" where
  "map_err f [] = Inr []"
| "map_err f (x # xs) =
     (case f x of
        Inl e \<Rightarrow> Inl e
      | Inr y \<Rightarrow> (case map_err f xs of Inl e \<Rightarrow> Inl e | Inr ys \<Rightarrow> Inr (y # ys)))"

text \<open>
  \<open>fix(p)\<close> of \<open>_handle_docx\<close> and the body of \<open>fix_tf\<close> of \<open>_handle_pptx\<close>: the text of
  a paragraph is the concatenation of its runs. Unchanged text leaves the runs alone;
  otherwise every run is transformed by itself, and if the runs then do not add up to
  the transformed text, the first run takes all of it and the others are emptied.
\<close>

definition fix_para :: "(pystr \<Rightarrow> pyerr + pystr) \<Rightarrow> para \<Rightarrow> pyerr + para" where
  "fix_para fn runs =
     (let full = concat runs in
      case fn full of
        Inl e \<Rightarrow> Inl e
      | Inr new \<Rightarrow>
          if full = new then Inr runs
          else (case map_err fn runs of
                  Inl e \<Rightarrow> Inl e
                | Inr runs' \<Rightarrow>
                    if concat runs' \<noteq> new
                    then Inr (case runs' of [] \<Rightarrow> [] | r # rs \<Rightarrow> new # map (\<lambda>_. []) rs)
                    else Inr runs'))"

definition fix_cells ::
  "(pystr \<Rightarrow> pyerr + pystr) \<Rightarrow> para list list list \<Rightarrow> pyerr + para list list list" where
  "fix_cells fn rows = map_err (map_err (map_err (fix_para fn))) rows"

definition fix_docx :: "(pystr \<Rightarrow> pyerr + pystr) \<Rightarrow> docx \<Rightarrow> pyerr + docx" where
  "fix_docx fn doc =
     (case map_err (fix_para fn) (paragraphs doc) of
        Inl e \<Rightarrow> Inl e
      | Inr ps \<Rightarrow>
          (case map_err (fix_cells fn) (tables doc) of
             Inl e \<Rightarrow> Inl e
           | Inr ts \<Rightarrow> Inr (Docx ps ts)))"

definition fix_shape :: "(pystr \<Rightarrow> pyerr + pystr) \<Rightarrow> shape \<Rightarrow> pyerr + shape" where
  "fix_shape fn sh =
     (case (case text_frame sh of
              None \<Rightarrow> Inr None
            | Some tf \<Rightarrow> (case map_err (fix_para fn) tf of Inl e \<Rightarrow> Inl e | Inr tf' \<Rightarrow> Inr (Some tf')))
      of
        Inl e \<Rightarrow> Inl e
      | Inr tf' \<Rightarrow>
          (case shape_table sh of
             None \<Rightarrow> Inr (Shape tf' None)
           | Some rows \<Rightarrow>
               (case fix_cells fn rows of
                  Inl e \<Rightarrow> Inl e
                | Inr rows' \<Rightarrow> Inr (Shape tf' (Some rows')))))"

definition fix_pptx :: "(pystr \<Rightarrow> pyerr + pystr) \<Rightarrow> pptx \<Rightarrow> pyerr + pptx" where
  "fix_pptx fn prs =
     (case map_err (map_err (fix_shape fn)) (slides prs) of
        Inl e \<Rightarrow> Inl e
      | Inr ss \<Rightarrow> Inr (Pptx ss))"

definition fix_cell :: "(pystr \<Rightarrow> pyerr + pystr) \<Rightarrow> cell \<Rightarrow> pyerr + cell" where
  "fix_cell fn c =
     (case c of
        CellStr v \<Rightarrow> (case fn v of Inl e \<Rightarrow> Inl e | Inr v' \<Rightarrow> Inr (CellStr v'))
      | CellOther \<Rightarrow> Inr CellOther)"

definition fix_xlsx :: "(pystr \<Rightarrow> pyerr + pystr) \<Rightarrow> xlsx \<Rightarrow> pyerr + xlsx" where
  "fix_xlsx fn wb =
     (case map_err (map_err (map_err (fix_cell fn))) (worksheets wb) of
        Inl e \<Rightarrow> Inl e
      | Inr ws \<Rightarrow> Inr (Xlsx ws))"

text \<open>
  A handler returns the error it ended with, if any, and the world it leaves. The
  office handlers write only at their end, with \<open>save(dst)\<close>.
\<close>

definition handle_docx ::
  "world \<Rightarrow> pystr \<Rightarrow> pystr \<Rightarrow> (pystr \<Rightarrow> pyerr + pystr) \<Rightarrow> pyerr option \<times> world" where
  "handle_docx w src dst fn =
     (if \<not> DOCX_OK w then (Some (ImportError ([0x8BF7, 0x5B89, 0x88C5] @ ascii '' python-docx'')), w)
      else case fs w src of
        Some (DocxFile doc) \<Rightarrow>
          (case fix_docx fn doc of
             Inl e \<Rightarrow> (Some e, w)
           | Inr doc' \<Rightarrow>
               (case write_file w dst (DocxFile doc') of
                  Inl e \<Rightarrow> (Some e, w)
                | Inr w' \<Rightarrow> (None, w')))
      | _ \<Rightarrow> (Some BadDocument, w))"

definition handle_pptx ::
  "world \<Rightarrow> pystr \<Rightarrow> pystr \<Rightarrow> (pystr \<Rightarrow> pyerr + pystr) \<Rightarrow> pyerr option \<times> world" where
  "handle_pptx w src dst fn =
     (if \<not> PPTX_OK w then (Some (ImportError ([0x8BF7, 0x5B89, 0x88C5] @ ascii '' python-pptx'')), w)
      else case fs w src of
        Some (PptxFile prs) \<Rightarrow>
          (case fix_pptx fn prs of
             Inl e \<Rightarrow> (Some e, w)
           | Inr prs' \<Rightarrow>
               (case write_file w dst (PptxFile prs') of
                  Inl e \<Rightarrow> (Some e, w)
                | Inr w' \<Rightarrow> (None, w')))
      | _ \<Rightarrow> (Some BadDocument, w))"

definition handle_xlsx ::
  "world \<Rightarrow> pystr \<Rightarrow> pystr \<Rightarrow> (pystr \<Rightarrow> pyerr + pystr) \<Rightarrow> pyerr option \<times> world" where
  "handle_xlsx w src dst fn =
     (if \<not> XLSX_OK w then (Some (ImportError ([0x8BF7, 0x5B89, 0x88C5] @ ascii '' openpyxl'')), w)
      else case fs w src of
        Some (XlsxFile wb) \<Rightarrow>
          (case fix_xlsx fn wb of
             Inl e \<Rightarrow> (Some e, w)
           | Inr wb' \<Rightarrow>
               (case write_file w dst (XlsxFile wb') of
                  Inl e \<Rightarrow> (Some e, w)
                | Inr w' \<Rightarrow> (None, w')))
      | _ \<Rightarrow> (Some BadDocument, w))"

text \<open>
  The loop of \<open>_handle_txt\<close> over \<open>("utf-8", "utf-8-sig", "gbk")\<close>: the first codec that
  decodes the file gives the content; \<open>UnicodeDecodeError\<close> goes on to the next codec,
  any other error ends the handler; when no codec decodes, the content stays \<open>""\<close>.
\<close>

fun read_ladder :: "world \<Rightarrow> pystr \<Rightarrow> codec list \<Rightarrow> pyerr + pystr" where
  "read_ladder w src [] = Inr []"
| "read_ladder w src (c # cs) =
     (case read_text w src c of
        Inr content \<Rightarrow> Inr content
      | Inl UnicodeDecodeError \<Rightarrow> read_ladder w src cs
      | Inl e \<Rightarrow> Inl e)"

text \<open>
  \<open>with open(dst, "w", encoding="utf-8") as f: f.write(fn(content))\<close>: the file is
  opened, and so emptied, before \<open>fn\<close> runs.
\<close>

definition handle_txt ::
  "world \<Rightarrow> pystr \<Rightarrow> pystr \<Rightarrow> (pystr \<Rightarrow> pyerr + pystr) \<Rightarrow> pyerr option \<times> world" where
  "handle_txt w src dst fn =
     (case read_ladder w src [UTF8, UTF8_SIG, GBK] of
        Inl e \<Rightarrow> (Some e, w)
      | Inr content \<Rightarrow>
          (case write_file w dst (TextFile (\<lambda>c. Some [])) of
             Inl e \<Rightarrow> (Some e, w)
           | Inr w0 \<Rightarrow>
               (case fn content of
                  Inl e \<Rightarrow> (Some e, w0)
                | Inr text \<Rightarrow> (None, w0\<lparr>fs := (fs w0)(dst \<mapsto> TextFile (\<lambda>c. Some text))\<rparr>))))"

section \<open>\<open>process\<close> and \<open>batch\<close>\<close>

text \<open>
  The mode is the string the source compares with \<open>"enc"\<close>; every other string is
  unmasking. \<open>dst_path\<close> is the \<open>dst\<close> of \<open>process\<close>.
\<close>

definition is_enc :: "pystr \<Rightarrow> bool" where
  "is_enc mode \<longleftrightarrow> mode = ascii ''enc''"

definition dst_path :: "pystr \<Rightarrow> pystr \<Rightarrow> pystr" where
  "dst_path src mode =
     path_join (dir_or_dot src)
       (fst (splitext (basename src)) @
        (if is_enc mode then ascii ''_'' @ [0x52A0, 0x5BC6] else ascii ''_'' @ [0x89E3, 0x5BC6]) @
        lower (snd (splitext src)))"

text \<open>The dictionary \<open>H\<close> of \<open>process\<close>, from the extension to the handler.\<close>

type_synonym handler =
  "world \<Rightarrow> pystr \<Rightarrow> pystr \<Rightarrow> (pystr \<Rightarrow> pyerr + pystr) \<Rightarrow> pyerr option \<times> world"

definition H :: "pystr \<Rightarrow> handler option" where
  "H ext =
     (if ext = ascii ''.docx'' then Some handle_docx
      else if ext = ascii ''.pptx'' then Some handle_pptx
      else if ext = ascii ''.xlsx'' then Some handle_xlsx
      else if ext = ascii ''.txt'' then Some handle_txt
      else None)"

definition process ::
  "scrubber \<Rightarrow> world \<Rightarrow> pystr \<Rightarrow> pystr list \<Rightarrow> pystr \<Rightarrow>
     (pyerr + pystr \<times> pystr option) \<times> scrubber \<times> world" where
  "process s w src words mode =
     (if \<not> path_exists w src
      then (Inl (FileNotFoundError ([0x6587, 0x4EF6, 0x4E0D, 0x5B58, 0x5728, 0xFF1A] @ src)), s, w)
      else
        let ext = lower (snd (splitext src));
            dst = dst_path src mode;
            fn = (if is_enc mode then enc s else dec s)
        in
          case H ext of
            Some handle \<Rightarrow>
              (case handle w src dst fn of
                 (Some e, w') \<Rightarrow> (Inl e, s, w')
               | (None, w') \<Rightarrow>
                   if is_enc mode then
                     (case save s w' dst of
                        (Inl e, s', w'') \<Rightarrow> (Inl e, s', w'')
                      | (Inr mp, s', w'') \<Rightarrow> (Inr (dst, Some mp), s', w''))
                   else (Inr (dst, None), s, w'))
          | None \<Rightarrow>
              if ext \<in> {ascii ''.doc'', ascii ''.ppt'', ascii ''.xls''} then
                (Inl (ValueError (ext @ ascii '' '' @
                   [0x4E3A, 0x65E7, 0x7248, 0x683C, 0x5F0F, 0xFF0C, 0x8BF7, 0x53E6, 0x5B58, 0x4E3A,
                    0x65B0, 0x683C, 0x5F0F, 0x540E, 0x5904, 0x7406])), s, w)
              else
                (Inl (ValueError ([0x4E0D, 0x652F, 0x6301, 0x7684, 0x683C, 0x5F0F, 0xFF1A] @ ext)), s, w))"

text \<open>
  An entry of the list \<open>batch\<close> returns: \<open>(fp, out, None, mp)\<close> or
  \<open>(fp, None, str(e), None)\<close>, the error standing for its message.
\<close>

type_synonym outcome = "pystr \<times> pystr option \<times> pyerr option \<times> pystr option"

text \<open>
  The callback \<open>cb\<close> is \<open>None\<close> or a function of the caller, called with
  \<open>(i+1, len(files), fname, tag)\<close>; it returns (\<open>None\<close>) or raises an exception
  (\<open>Some e\<close>). No two calls of one batch have the same index and tag.
\<close>

type_synonym callback = "nat \<Rightarrow> nat \<Rightarrow> pystr \<Rightarrow> pystr \<Rightarrow> pyerr option"

definition call_cb :: "callback option \<Rightarrow> nat \<Rightarrow> nat \<Rightarrow> pystr \<Rightarrow> pystr \<Rightarrow> pyerr option" where
  "call_cb cb i n fname tag = (case cb of None \<Rightarrow> None | Some f \<Rightarrow> f i n fname tag)"

definition tag_done :: pystr where
  "tag_done = [0x5B8C, 0x6210]"

definition tag_failed :: pystr where
  "tag_failed = [0x5931, 0x8D25]"

text \<open>
  The loop of \<open>batch\<close>, with the list \<open>results\<close> it appends to. The call of \<open>cb\<close>
  after a success stands inside the \<open>try\<close>: when it raises, the \<open>except\<close> branch appends
  a failure for the same file, behind the success. The call of \<open>cb\<close> in the \<open>except\<close>
  branch stands outside every \<open>try\<close>: when it raises, \<open>batch\<close> ends with that exception
  and returns no list.
\<close>

fun batch_loop ::
  "callback option \<Rightarrow> nat \<Rightarrow> nat \<Rightarrow> pystr list \<Rightarrow> pystr \<Rightarrow> outcome list \<Rightarrow>
     scrubber \<Rightarrow> world \<Rightarrow> pystr list \<Rightarrow> (pyerr + outcome list) \<times> scrubber \<times> world" where
  "batch_loop cb n i words mode results s w [] = (Inr results, s, w)"
| "batch_loop cb n i words mode results s w (fp # fps) =
     (case process s w fp words mode of
        (Inr (out, mp), s', w') \<Rightarrow>
          (case call_cb cb (i + 1) n (basename fp) tag_done of
             None \<Rightarrow>
               batch_loop cb n (i + 1) words mode (results @ [(fp, Some out, None, mp)]) s' w' fps
           | Some e \<Rightarrow>
               (case call_cb cb (i + 1) n (basename fp) tag_failed of
                  None \<Rightarrow>
                    batch_loop cb n (i + 1) words mode
                      (results @ [(fp, Some out, None, mp), (fp, None, Some e, None)]) s' w' fps
                | Some e' \<Rightarrow> (Inl e', s', w')))
      | (Inl e, s', w') \<Rightarrow>
          (case call_cb cb (i + 1) n (basename fp) tag_failed of
             None \<Rightarrow>
               batch_loop cb n (i + 1) words mode (results @ [(fp, None, Some e, None)]) s' w' fps
           | Some e' \<Rightarrow> (Inl e', s', w')))"

definition batch ::
  "scrubber \<Rightarrow> rng \<Rightarrow> world \<Rightarrow> pystr list \<Rightarrow> pystr list \<Rightarrow> pystr \<Rightarrow> callback option \<Rightarrow>
     (pyerr + outcome list) \<times> scrubber \<times> rng \<times> world" where
  "batch s g w files words mode cb =
     (case (if is_enc mode then build s words g else (s, g)) of
        (s1, g1) \<Rightarrow>
          (case batch_loop cb (length files) 0 words mode [] s1 w files of
             (r, s2, w2) \<Rightarrow> (r, s2, g1, w2)))"

text \<open>A callback that is absent or returns from every call.\<close>

definition cb_returns :: "callback option \<Rightarrow> bool" where
  "cb_returns cb \<longleftrightarrow> (\<forall>i n fname tag. call_cb cb i n fname tag = None)"

text \<open>
  The successes and the failures of a result list, as \<open>_done\<close> separates them:
  \<open>r[2] is None\<close> and \<open>r[2] is not None\<close>.
\<close>

definition ok_results :: "outcome list \<Rightarrow> outcome list" where
  "ok_results rs = filter (\<lambda>r. fst (snd (snd r)) = None) rs"

definition fail_results :: "outcome list \<Rightarrow> outcome list" where
  "fail_results rs = filter (\<lambda>r. fst (snd (snd r)) \<noteq> None) rs"

section \<open>The caller: \<open>App._words\<close> and \<open>App._run\<close>\<close>

text \<open>\<open>re.split(r"[,\<dots>\n]", raw)\<close> with the comma, the full-width comma and the newline.\<close>

definition is_sep :: "nat \<Rightarrow> bool" where
  "is_sep c \<longleftrightarrow> c = 44 \<or> c = 0xFF0C \<or> c = 10"

fun re_split :: "pystr \<Rightarrow> pystr list" where
  "re_split [] = [[]]"
| "re_split (c # cs) =
     (if is_sep c then [] # re_split cs
      else (case re_split cs of [] \<Rightarrow> [[c]] | p # ps \<Rightarrow> (c # p) # ps))"

definition placeholder :: pystr where
  "placeholder = [0x4F8B, 0xFF1A, 0x4E2D, 0x56FD, 0xFF0C] @ ascii ''1'' @ [0xFF0C] @ ascii ''2'' @
     [0xFF0C] @ ascii ''3'' @ [0xFF0C] @ ascii ''0'' @ [0xFF0C, 0x653F, 0x5E9C]"

text \<open>\<open>_words\<close>, from the content of the word box.\<close>

definition words_of :: "pystr \<Rightarrow> pystr list" where
  "words_of box =
     (let raw = strip box in
      if raw = placeholder \<or> raw = [] then []
      else map strip (filter (\<lambda>w. strip w \<noteq> []) (re_split raw)))"

text \<open>
  The part of the application \<open>_run\<close> reads: the scrubber, the files of the two zones
  and the word box. The answers of the user to the two dialogues of the unmasking branch
  are arguments: \<open>ans\<close> for \<open>askokcancel\<close>, \<open>jp\<close> for \<open>askopenfilename\<close>. The worker
  thread is the call of \<open>batch\<close> with the progress display \<open>gui\<close> of the window as its
  callback; an exception of \<open>batch\<close> ends the thread. \<open>_done\<close>, which displays the
  result, is left out.
\<close>

record app =
  app_scrubber :: scrubber
  enc_files :: "pystr list"
  dec_files :: "pystr list"
  word_box :: pystr

datatype run_result =
    ShowWarning pystr
  | ShowError pyerr
  | Declined
  | Uncaught pyerr
  | NotStrStore
  | Started "outcome list"
  | WorkerRaised pyerr

definition run_batch ::
  "app \<Rightarrow> rng \<Rightarrow> world \<Rightarrow> pystr list \<Rightarrow> pystr list \<Rightarrow> pystr \<Rightarrow> callback \<Rightarrow>
     run_result \<times> app \<times> rng \<times> world" where
  "run_batch a g w files words mode gui =
     (case batch (app_scrubber a) g w files words mode (Some gui) of
        (Inr rs, s', g', w') \<Rightarrow> (Started rs, a\<lparr>app_scrubber := s'\<rparr>, g', w')
      | (Inl e, s', g', w') \<Rightarrow> (WorkerRaised e, a\<lparr>app_scrubber := s'\<rparr>, g', w'))"

definition run ::
  "app \<Rightarrow> rng \<Rightarrow> world \<Rightarrow> pystr \<Rightarrow> bool \<Rightarrow> pystr \<Rightarrow> callback \<Rightarrow>
     run_result \<times> app \<times> rng \<times> world" where
  "run a g w mode ans jp gui =
     (case (if is_enc mode then enc_files a else dec_files a) of
        [] \<Rightarrow>
          (ShowWarning ([0x8BF7, 0x5148, 0x5728] @
             (if is_enc mode then [0x52A0, 0x5BC6, 0x533A] else [0x89E3, 0x5BC6, 0x533A]) @
             [0x6DFB, 0x52A0, 0x6587, 0x4EF6, 0x3002]), a, g, w)
      | f0 # fs0 \<Rightarrow>
          if is_enc mode then
            (let words = words_of (word_box a) in
             if words = [] then
               (ShowWarning [0x8BF7, 0x586B, 0x5199, 0x654F, 0x611F, 0x8BCD, 0x3002], a, g, w)
             else run_batch a g w (f0 # fs0) words mode gui)
          else if reverse (app_scrubber a) = [] then
            (case auto_load (app_scrubber a) w f0 of
               (Some (Loaded s'), mp) \<Rightarrow>
                 run_batch (a\<lparr>app_scrubber := s'\<rparr>) g w (f0 # fs0) [] mode gui
             | (Some (LoadRaised e s'), mp) \<Rightarrow> (Uncaught e, a\<lparr>app_scrubber := s'\<rparr>, g, w)
             | (Some LoadNotStr, mp) \<Rightarrow> (NotStrStore, a, g, w)
             | (None, mp) \<Rightarrow>
                 if ans then
                   if jp \<noteq> [] then
                     (case load (app_scrubber a) w jp of
                        Loaded s' \<Rightarrow> run_batch (a\<lparr>app_scrubber := s'\<rparr>) g w (f0 # fs0) [] mode gui
                      | LoadRaised e s' \<Rightarrow> (ShowError e, a\<lparr>app_scrubber := s'\<rparr>, g, w)
                      | LoadNotStr \<Rightarrow> (NotStrStore, a, g, w))
                   else (Declined, a, g, w)
                 else (Declined, a, g, w))
          else run_batch a g w (f0 # fs0) [] mode gui)"

section \<open>A world for the examples\<close>

text \<open>
  Four files in the working directory and every library installed: two text files, a
  text file that no codec decodes, and a file named \<open>k.docx\<close> that is no Word document.
\<close>

definition sample_world :: world where
  "sample_world =
     \<lparr>fs = [ascii ''a.txt'' \<mapsto> TextFile (\<lambda>c. Some (ascii ''A and AB'')),
             ascii ''c.txt'' \<mapsto> TextFile (\<lambda>c. Some (ascii ''[MASK_00000001]'')),
             ascii ''u.txt'' \<mapsto> TextFile (\<lambda>c. None),
             ascii ''k.docx'' \<mapsto> TextFile (\<lambda>c. Some (ascii ''junk''))],
      DOCX_OK = True, PPTX_OK = True, XLSX_OK = True\<rparr>"

text \<open>
  Two callbacks: one that returns from every call, and one that raises \<open>TypeError\<close>
  whenever it is called with the tag \<open>t\<close>.
\<close>

definition quiet_cb :: callback where
  "quiet_cb i n fname tag = None"

definition cb_fails_on :: "pystr \<Rightarrow> callback" where
  "cb_fails_on t i n fname tag = (if tag = t then Some TypeError else None)"

section \<open>Properties of the token pattern and of the scans\<close>

lemma ascii_prefix: "ascii ''[MASK_'' = [91, 77, 65, 83, 75, 95]"
  by (simp add: ascii_def)

lemma ascii_close: "ascii '']'' = [93]"
  by (simp add: ascii_def)

lemma mask_match_iff:
  "mask_match s \<longleftrightarrow>
     (\<exists>h r. s = [91, 77, 65, 83, 75, 95] @ h @ [93] @ r \<and> length h = 8 \<and> list_all is_hex h)"
proof
  assume m: "mask_match s"
  let ?h = "take 8 (drop 6 s)"
  have a: "take 6 s = [91, 77, 65, 83, 75, 95]" and b: "length ?h = 8"
    and c: "list_all is_hex ?h" and d: "take 1 (drop 14 s) = [93]"
    using m by (simp_all add: mask_match_def ascii_prefix ascii_close)
  have e: "drop 6 s = ?h @ drop 8 (drop 6 s)"
    by (rule append_take_drop_id [symmetric])
  have f: "drop 14 s = take 1 (drop 14 s) @ drop 1 (drop 14 s)"
    by (rule append_take_drop_id [symmetric])
  have "s = take 6 s @ drop 6 s"
    by (rule append_take_drop_id [symmetric])
  also have "\<dots> = take 6 s @ ?h @ drop 14 s"
    using e by simp
  also have "\<dots> = take 6 s @ ?h @ take 1 (drop 14 s) @ drop 15 s"
    using f by simp
  finally have "s = [91, 77, 65, 83, 75, 95] @ ?h @ [93] @ drop 15 s"
    using a d by simp
  with b c show "\<exists>h r. s = [91, 77, 65, 83, 75, 95] @ h @ [93] @ r \<and> length h = 8 \<and> list_all is_hex h"
    by blast
next
  assume "\<exists>h r. s = [91, 77, 65, 83, 75, 95] @ h @ [93] @ r \<and> length h = 8 \<and> list_all is_hex h"
  then show "mask_match s"
    by (auto simp: mask_match_def ascii_prefix ascii_close)
qed

lemma mask_match_length: "mask_match s \<Longrightarrow> 15 \<le> length s"
  by (auto simp: mask_match_iff)

lemma mask_match_take: "mask_match (take 15 s) = mask_match s"
  by (simp add: mask_match_def min_def drop_take)

lemma mask_match_append: "15 \<le> length a \<Longrightarrow> mask_match (a @ b) = mask_match a"
  using mask_match_take [of "a @ b"] mask_match_take [of a] by simp

lemma mask_match_hd: "mask_match s \<Longrightarrow> \<exists>r. s = 91 # r"
  by (auto simp: mask_match_iff)

lemma mask_match_inner: 
  assumes "mask_match s" "0 < i" "i < 15"
  shows "s ! i \<noteq> 91"
proof -
  from assms(1) obtain h r where s: "s = [91, 77, 65, 83, 75, 95] @ h @ [93] @ r"
    and h: "length h = 8" "list_all is_hex h"
    by (auto simp: mask_match_iff)
  consider "i < 6" | "6 \<le> i" "i < 14" | "i = 14" using assms(3) by linarith
  then show ?thesis
  proof cases
    case 1
    with assms(2) have "i \<in> {1, 2, 3, 4, 5}" by auto
    then show ?thesis using s by auto
  next
    case 2
    then obtain j where j: "i = length [91, 77, 65, 83, 75, 95 :: nat] + j" "j < 8"
      by (auto simp: le_iff_add)
    have "s ! i = (h @ [93] @ r) ! j"
      unfolding s j(1) by (rule nth_append_length_plus)
    then have "s ! i = h ! j" using j(2) h by (simp add: nth_append)
    moreover have "is_hex (h ! j)" using h j(2) by (simp add: list_all_length)
    ultimately show ?thesis by (auto simp: is_hex_def)
  next
    case 3
    then show ?thesis using s h by (simp add: nth_append)
  qed
qed

lemma mask_match_straddle:
  assumes "a \<noteq> []" "mask_match t"
  shows "mask_match (a @ t @ b) = mask_match a"
proof (cases "15 \<le> length a")
  case True
  then show ?thesis by (rule mask_match_append)
next
  case False
  then have l: "0 < length a" "length a < 15" using assms(1) by auto
  from assms(2) obtain r where "t = 91 # r" using mask_match_hd by blast
  then have "(a @ t @ b) ! length a = 91" by (simp add: nth_append)
  with l have "\<not> mask_match (a @ t @ b)" using mask_match_inner by blast
  moreover have "\<not> mask_match a" using False mask_match_length by blast
  ultimately show ?thesis by simp
qed

lemma is_token_take: "is_token t \<Longrightarrow> mask_match (t @ b) \<and> take 15 (t @ b) = t \<and> drop 15 (t @ b) = b"
  by (simp add: is_token_def mask_match_append)

lemma mask_sub_token:
  assumes "is_token t"
  shows "mask_sub r (a @ t @ b) = mask_sub r a @ repl r t @ mask_sub r b"
proof (induction r a rule: mask_sub.induct)
  case (1 r)
  from assms obtain c cs where t: "t = c # cs" by (cases t) (auto simp: is_token_def)
  from is_token_take [OF assms, of b] show ?case
    unfolding t by simp
next
  case (2 r c cs)
  have m: "mask_match ((c # cs) @ t @ b) = mask_match (c # cs)"
    using assms by (simp add: mask_match_straddle is_token_def del: append.simps)
  show ?case
  proof (cases "mask_match (c # cs)")
    case True
    then have "15 \<le> length (c # cs)" by (rule mask_match_length)
    then have l: "14 \<le> length cs" by simp
    with True m 2 show ?thesis by simp
  next
    case False
    with m 2 show ?thesis by simp
  qed
qed


lemma hex_digits_numeral:
  "hex_digits (numeral k) n =
     hexdigit (n div 16 ^ pred_numeral k mod 16) # hex_digits (pred_numeral k) n"
  unfolding numeral_eq_Suc [of k] by (rule hex_digits.simps)

lemmas eval_defs =
  word_sub.simps ascii_def is_token_def mask_match_def is_hex_def repl_def dict_get_def Let_def
  enc_def dec_def sorted_words_def new_scrubber_def strip_def is_space_def
  new_mask_def sample_rng_def uuid_hex_def hex_digits_numeral hexdigit_def upper_def

lemma mask_findall_token:
  assumes "is_token t"
  shows "mask_findall (a @ t @ b) = mask_findall a @ t # mask_findall b"
proof (induction a rule: mask_findall.induct)
  case 1
  from assms obtain c cs where t: "t = c # cs" by (cases t) (auto simp: is_token_def)
  from is_token_take [OF assms, of b] show ?case
    unfolding t by simp
next
  case (2 c cs)
  have m: "mask_match ((c # cs) @ t @ b) = mask_match (c # cs)"
    using assms by (simp add: mask_match_straddle is_token_def del: append.simps)
  show ?case
  proof (cases "mask_match (c # cs)")
    case True
    then have "15 \<le> length (c # cs)" by (rule mask_match_length)
    then have l: "14 \<le> length cs" by simp
    with True m 2 show ?thesis by simp
  next
    case False
    with m 2 show ?thesis by simp
  qed
qed

lemma mask_split_nonempty: "mask_split s \<noteq> []"
  by (induction s rule: mask_split.induct) (auto split: list.splits)

lemma mask_split_token:
  assumes "is_token t"
  shows "mask_split (a @ t @ b) = mask_split a @ mask_split b"
proof (induction a rule: mask_split.induct)
  case 1
  from assms obtain c cs where t: "t = c # cs" by (cases t) (auto simp: is_token_def)
  from is_token_take [OF assms, of b] show ?case
    unfolding t by simp
next
  case (2 c cs)
  have m: "mask_match ((c # cs) @ t @ b) = mask_match (c # cs)"
    using assms by (simp add: mask_match_straddle is_token_def del: append.simps)
  show ?case
  proof (cases "mask_match (c # cs)")
    case True
    then have "15 \<le> length (c # cs)" by (rule mask_match_length)
    then have l: "14 \<le> length cs" by simp
    with True m 2 show ?thesis by simp
  next
    case False
    obtain p ps where "mask_split cs = p # ps"
      using mask_split_nonempty [of cs] by (cases "mask_split cs") auto
    with False m 2 show ?thesis by simp
  qed
qed

lemma mask_split_length: "length (mask_split s) = Suc (length (mask_findall s))"
  by (induction s rule: mask_split.induct) (auto split: list.splits simp: mask_split_nonempty)

lemma join_append:
  "foldl (\<lambda>out (mk, p). out @ mk @ p) (x @ y) zs = x @ foldl (\<lambda>out (mk, p). out @ mk @ p) y zs"
  by (induction zs arbitrary: y) (auto)

lemma enc_nonempty:
  assumes "mapping s \<noteq> []"
  shows "enc s x = Inr (foldl (\<lambda>out (mk, p). out @ mk @ p)
           (word_sub (mapping s) (sorted_words (mapping s)) False (hd (mask_split x)))
           (zip (mask_findall x)
              (map (word_sub (mapping s) (sorted_words (mapping s)) False) (tl (mask_split x)))))"
  using assms mask_split_nonempty [of x]
  by (cases "mask_split x") (simp_all add: enc_def Let_def)

lemma enc_total: "\<exists>y. enc s x = Inr y"
  by (cases "mapping s = []") (simp_all add: enc_nonempty, simp add: enc_def)

lemma enc_around_token:
  assumes "is_token t"
  shows "\<exists>a' b'. enc s a = Inr a' \<and> enc s b = Inr b' \<and> enc s (a @ t @ b) = Inr (a' @ t @ b')"
proof (cases "mapping s = []")
  case True
  then show ?thesis by (simp add: enc_def)
next
  case False
  let ?W = "word_sub (mapping s) (sorted_words (mapping s)) False"
  let ?J = "foldl (\<lambda>out (mk, p). out @ mk @ p)"
  obtain pa pas where pa: "mask_split a = pa # pas"
    using mask_split_nonempty [of a] by (cases "mask_split a") auto
  obtain pb pbs where pb: "mask_split b = pb # pbs"
    using mask_split_nonempty [of b] by (cases "mask_split b") auto
  have la: "length (mask_findall a) = length (map ?W pas)"
    using mask_split_length [of a] pa by simp
  have "enc s (a @ t @ b) =
      Inr (?J (?W pa) (zip (mask_findall a @ t # mask_findall b) (map ?W pas @ ?W pb # map ?W pbs)))"
    using False assms pa pb
    by (simp add: enc_nonempty mask_split_token mask_findall_token)
  also have "zip (mask_findall a @ t # mask_findall b) (map ?W pas @ ?W pb # map ?W pbs) =
      zip (mask_findall a) (map ?W pas) @ (t, ?W pb) # zip (mask_findall b) (map ?W pbs)"
    using la by simp
  also have "?J (?W pa) (zip (mask_findall a) (map ?W pas) @ (t, ?W pb) # zip (mask_findall b) (map ?W pbs)) =
      ?J (?J (?W pa) (zip (mask_findall a) (map ?W pas)) @ t @ ?W pb) (zip (mask_findall b) (map ?W pbs))"
    by simp
  also have "\<dots> = ?J (?W pa) (zip (mask_findall a) (map ?W pas)) @ t @
      ?J (?W pb) (zip (mask_findall b) (map ?W pbs))"
    using join_append [of "?J (?W pa) (zip (mask_findall a) (map ?W pas)) @ t" "?W pb"]
    by simp
  finally show ?thesis
    using False pa pb by (simp add: enc_nonempty)
qed

subsection \<open>Dictionaries and \<open>build\<close>\<close>

lemma dict_get_set: "dict_get (dict_set d k v) k' = (if k' = k then Some v else dict_get d k')"
  by (induction d k v rule: dict_set.induct) (auto simp: dict_get_def)

lemma keys_dict_set:
  "map fst (dict_set d k v) = (if k \<in> fst ` set d then map fst d else map fst d @ [k])"
  by (induction d k v rule: dict_set.induct) (auto)

lemma distinct_dict_set: "distinct (map fst d) \<Longrightarrow> distinct (map fst (dict_set d k v))"
  by (simp add: keys_dict_set)

lemma dict_get_None_iff: "dict_get d k = None \<longleftrightarrow> k \<notin> fst ` set d"
  by (simp add: dict_get_def map_of_eq_None_iff)

lemma build_keeps:
  "dict_get (mapping s) k = Some t \<Longrightarrow> dict_get (mapping (fst (build s ws g))) k = Some t"
proof (induction ws arbitrary: s g)
  case Nil
  then show ?case by simp
next
  case (Cons w0 ws)
  show ?case
  proof (cases "strip w0 \<noteq> [] \<and> dict_get (mapping s) (strip w0) = None")
    case True
    with Cons.prems have "strip w0 \<noteq> k" by auto
    with Cons.prems True show ?thesis
      by (simp add: Let_def Cons.IH dict_get_set)
  next
    case False
    with Cons show ?thesis by (auto simp: Let_def)
  qed
qed

lemma build_covers:
  "w0 \<in> set ws \<Longrightarrow> strip w0 \<noteq> [] \<Longrightarrow>
     dict_get (mapping (fst (build s ws g))) (strip w0) \<noteq> None"
proof (induction ws arbitrary: s g)
  case Nil
  then show ?case by simp
next
  case (Cons a ws)
  show ?case
  proof (cases "w0 = a")
    case True
    show ?thesis
    proof (cases "dict_get (mapping s) (strip a) = None")
      case n: True
      let ?s = "s\<lparr>mapping := dict_set (mapping s) (strip a) (new_mask (g 0)),
                  reverse := dict_set (reverse s) (new_mask (g 0)) (strip a)\<rparr>"
      have "dict_get (mapping ?s) (strip a) = Some (new_mask (g 0))"
        by (simp add: dict_get_set)
      from build_keeps [OF this, of ws "\<lambda>n. g (Suc n)"] n Cons.prems True
      show ?thesis by (simp add: Let_def)
    next
      case False
      then obtain t where "dict_get (mapping s) (strip a) = Some t" by auto
      from build_keeps [OF this, of ws g] False True show ?thesis
        by (auto simp: Let_def)
    qed
  next
    case False
    with Cons.prems have "w0 \<in> set ws" by simp
    with Cons.IH Cons.prems(2) show ?thesis by (simp add: Let_def)
  qed
qed

lemma build_fixpoint:
  "\<forall>w0 \<in> set ws. strip w0 = [] \<or> dict_get (mapping s) (strip w0) \<noteq> None \<Longrightarrow>
     build s ws g = (s, g)"
  by (induction ws arbitrary: s g) (auto simp: Let_def)

lemma build_distinct:
  "distinct (map fst (mapping s)) \<Longrightarrow> distinct (map fst (reverse s)) \<Longrightarrow>
     distinct (map fst (mapping (fst (build s ws g)))) \<and>
     distinct (map fst (reverse (fst (build s ws g))))"
proof (induction ws arbitrary: s g)
  case Nil
  then show ?case by simp
next
  case (Cons a ws)
  show ?case
  proof (cases "strip a \<noteq> [] \<and> dict_get (mapping s) (strip a) = None")
    case True
    let ?s = "s\<lparr>mapping := dict_set (mapping s) (strip a) (new_mask (g 0)),
                reverse := dict_set (reverse s) (new_mask (g 0)) (strip a)\<rparr>"
    have "distinct (map fst (mapping ?s))" "distinct (map fst (reverse ?s))"
      using Cons.prems by (simp_all add: distinct_dict_set)
    from Cons.IH [OF this, of "\<lambda>n. g (Suc n)"] True show ?thesis
      by (simp add: Let_def)
  next
    case False
    with Cons show ?thesis by (auto simp: Let_def)
  qed
qed


lemma findall_nil_iff: "mask_findall s = [] \<longleftrightarrow> (\<forall>i. \<not> mask_match (drop i s))"
proof (induction s rule: mask_findall.induct)
  case 1
  show ?case by (simp add: mask_match_def ascii_def)
next
  case (2 c cs)
  have "(\<forall>i. \<not> mask_match (drop i (c # cs))) \<longleftrightarrow>
      \<not> mask_match (c # cs) \<and> (\<forall>i. \<not> mask_match (drop i cs))"
  proof
    assume a: "\<forall>i. \<not> mask_match (drop i (c # cs))"
    from a [rule_format, of 0] a show "\<not> mask_match (c # cs) \<and> (\<forall>i. \<not> mask_match (drop i cs))"
      by (metis drop0 drop_Suc_Cons)
  next
    assume a: "\<not> mask_match (c # cs) \<and> (\<forall>i. \<not> mask_match (drop i cs))"
    show "\<forall>i. \<not> mask_match (drop i (c # cs))"
    proof
      fix i show "\<not> mask_match (drop i (c # cs))"
        using a by (cases i) auto
    qed
  qed
  with 2 show ?case by auto
qed

lemma findall_nil_suffix: "mask_findall (a @ b) = [] \<Longrightarrow> mask_findall b = []"
proof -
  assume "mask_findall (a @ b) = []"
  then have "\<forall>i. \<not> mask_match (drop i (a @ b))" by (simp add: findall_nil_iff)
  then have "\<not> mask_match (drop (length a + i) (a @ b))" for i by blast
  then show ?thesis by (simp add: findall_nil_iff)
qed

lemma split_no_token: "mask_findall s = [] \<Longrightarrow> mask_split s = [s]"
  by (induction s rule: mask_split.induct) (auto split: if_splits)

lemma first_match_mem: "first_match ws s = Some w \<Longrightarrow> w \<in> set ws \<and> prefix w s"
  by (induction ws) (auto split: if_splits)

lemma first_match_longest:
  assumes "sorted_wrt (\<lambda>a b. length b \<le> length a) ws" and "w \<in> set ws" and "prefix w x"
    and "\<forall>k \<in> set ws. prefix k x \<longrightarrow> length k \<le> length w"
  shows "first_match ws x = Some w"
  using assms
proof (induction ws)
  case Nil
  then show ?case by simp
next
  case (Cons k ks)
  show ?case
  proof (cases "prefix k x")
    case True
    with Cons.prems(4) have "length k \<le> length w" by simp
    moreover have "length w \<le> length k"
      using Cons.prems(1,2) by auto
    ultimately have "length k = length w" by simp
    with True Cons.prems(3) have "k = w"
      by (metis prefix_length_prefix order_refl prefix_order.antisym)
    with True show ?thesis by simp
  next
    case False
    with Cons.prems have "w \<in> set ks" by auto
    with Cons False show ?thesis by simp
  qed
qed

lemma sorted_words_desc: "sorted_wrt (\<lambda>a b. length b \<le> length a) (sorted_words d)"
proof -
  have "sorted (map (\<lambda>w. - int (length w)) (sorted_words d))"
    unfolding sorted_words_def by (rule sorted_sort_key)
  then show ?thesis by (simp add: sorted_map)
qed

lemma set_sorted_words: "set (sorted_words d) = fst ` set d"
  by (simp add: sorted_words_def)

lemma enc_no_token:
  assumes "mapping s \<noteq> []" and "mask_findall x = []"
  shows "enc s x = Inr (word_sub (mapping s) (sorted_words (mapping s)) False x)"
  using assms by (simp add: enc_def Let_def split_no_token)

subsection \<open>Generated masks are tokens\<close>

lemma length_hex_digits: "length (hex_digits k n) = k"
  by (induction k) auto

lemma hex_digits_set: "c \<in> set (hex_digits k n) \<Longrightarrow> \<exists>d<16. c = hexdigit d"
proof (induction k)
  case 0
  then show ?case by simp
next
  case (Suc k)
  have "\<exists>d<16. hexdigit (n div 16 ^ k mod 16) = hexdigit d"
    by (rule exI [of _ "n div 16 ^ k mod 16"]) simp
  with Suc show ?case by auto
qed

lemma new_mask_token: "is_token (new_mask u)"
proof -
  let ?h = "upper (take 8 (uuid_hex u))"
  have l: "length ?h = 8"
    by (simp add: upper_def uuid_hex_def length_hex_digits)
  have "is_hex c" if "c \<in> set ?h" for c
  proof -
    from that obtain c0 where "c0 \<in> set (take 8 (uuid_hex u))"
      and c: "c = (if 97 \<le> c0 \<and> c0 \<le> 122 then c0 - 32 else c0)"
      by (auto simp: upper_def)
    then have "c0 \<in> set (hex_digits 32 (unat u))"
      by (auto simp: uuid_hex_def dest: in_set_takeD)
    then obtain d where "d < 16" "c0 = hexdigit d" using hex_digits_set by blast
    with c show ?thesis by (auto simp: hexdigit_def is_hex_def)
  qed
  then have h: "list_all is_hex ?h" by (simp add: list_all_iff)
  have "mask_match (new_mask u)"
    unfolding mask_match_iff new_mask_def ascii_prefix ascii_close
    using l h by (intro exI [of _ ?h] exI [of _ "[]"]) simp
  moreover have "length (new_mask u) = 15"
    using l by (simp add: new_mask_def ascii_prefix ascii_close)
  ultimately show ?thesis by (simp add: is_token_def)
qed

subsection \<open>The invariant of \<open>build\<close>\<close>

lemma set_dict_set_new: "k \<notin> fst ` set d \<Longrightarrow> set (dict_set d k v) = insert (k, v) (set d)"
  by (induction d k v rule: dict_set.induct) auto

lemma store_inv_step:
  assumes "store_inv s" and "w \<noteq> []" and "dict_get (mapping s) w = None" and "is_token m"
  shows "store_inv (s\<lparr>mapping := dict_set (mapping s) w m, reverse := dict_set (reverse s) m w\<rparr>)"
proof -
  from assms(3) have nk: "w \<notin> fst ` set (mapping s)" by (simp add: dict_get_None_iff)
  have "\<forall>t w'. dict_get (dict_set (reverse s) m w) t = Some w' \<longrightarrow>
      dict_get (dict_set (mapping s) w m) w' = Some t"
    using assms(1,3) by (auto simp: store_inv_def dict_get_set)
  moreover have "\<forall>w' t. dict_get (dict_set (mapping s) w m) w' = Some t \<longrightarrow>
      dict_get (dict_set (reverse s) m w) t \<noteq> None"
    using assms(1) by (auto simp: store_inv_def dict_get_set)
  ultimately show ?thesis
    using assms(1,2,4) nk by (simp add: store_inv_def set_dict_set_new)
qed

lemma store_inv_build: "store_inv s \<Longrightarrow> store_inv (fst (build s ws g))"
proof (induction ws arbitrary: s g)
  case Nil
  then show ?case by simp
next
  case (Cons a ws)
  show ?case
  proof (cases "strip a \<noteq> [] \<and> dict_get (mapping s) (strip a) = None")
    case True
    then have "store_inv (s\<lparr>mapping := dict_set (mapping s) (strip a) (new_mask (g 0)),
        reverse := dict_set (reverse s) (new_mask (g 0)) (strip a)\<rparr>)"
      using Cons.prems new_mask_token by (intro store_inv_step) auto
    from Cons.IH [OF this] True show ?thesis by (simp add: Let_def)
  next
    case False
    with Cons show ?thesis by (auto simp: Let_def)
  qed
qed

lemma store_inv_new: "store_inv new_scrubber"
  by (simp add: store_inv_def new_scrubber_def dict_get_def)

lemma store_inv_reverse:
  assumes "store_inv s" and "distinct (map snd (mapping s))" and "dict_get (mapping s) w = Some t"
  shows "dict_get (reverse s) t = Some w"
proof -
  from assms(1,3) have "dict_get (reverse s) t \<noteq> None"
    unfolding store_inv_def by blast
  then obtain w' where r: "dict_get (reverse s) t = Some w'"
    by auto
  with assms(1) have "dict_get (mapping s) w' = Some t" by (simp add: store_inv_def)
  with assms(3) have "(w', t) \<in> set (mapping s)" "(w, t) \<in> set (mapping s)"
    by (simp_all add: dict_get_def map_of_SomeD)
  moreover have "inj_on snd (set (mapping s))"
    using assms(2) by (simp add: distinct_map)
  ultimately have "(w', t) = (w, t)" by (intro inj_onD [of snd]) auto
  then have "w' = w" by simp
  with r show ?thesis by simp
qed

subsection \<open>Unmasking what was masked\<close>

lemma mask_match_border:
  assumes "a \<noteq> []" and "tl' = [] \<or> (\<exists>r. tl' = 91 # r)"
  shows "mask_match (a @ tl') = mask_match a"
proof (cases "15 \<le> length a")
  case True
  then show ?thesis by (rule mask_match_append)
next
  case False
  then have l: "0 < length a" "length a < 15" using assms(1) by auto
  have "\<not> mask_match (a @ tl')"
  proof (cases "tl' = []")
    case True
    with False show ?thesis using mask_match_length [of a] by auto
  next
    case False
    with assms(2) obtain r where "tl' = 91 # r" by blast
    then have "(a @ tl') ! length a = 91" by simp
    with l show ?thesis using mask_match_inner by blast
  qed
  moreover have "\<not> mask_match a" using False mask_match_length by blast
  ultimately show ?thesis by simp
qed

lemma word_sub_nonempty:
  assumes "[] \<notin> set ws"
  shows "word_sub d ws adv s =
    (case first_match ws s of
       Some w \<Rightarrow> repl d w @ word_sub d ws False (drop (length w) s)
     | None \<Rightarrow> (case s of [] \<Rightarrow> [] | c # cs \<Rightarrow> c # word_sub d ws False cs))"
proof -
  have f: "filter (\<lambda>w. w \<noteq> []) ws = ws"
    using assms by (induction ws) auto
  have "w \<noteq> []" if "first_match ws s = Some w" for w
    using that assms first_match_mem by blast
  then show ?thesis
    by (subst word_sub.simps) (auto simp: f split: option.splits)
qed

lemma word_sub_None_Nil:
  "[] \<notin> set ws \<Longrightarrow> first_match ws [] = None \<Longrightarrow> word_sub d ws adv [] = []"
  by (subst word_sub_nonempty) simp_all

lemma word_sub_None_Cons:
  "[] \<notin> set ws \<Longrightarrow> first_match ws (c # cs) = None \<Longrightarrow>
     word_sub d ws adv (c # cs) = c # word_sub d ws False cs"
  by (subst word_sub_nonempty) simp_all

lemma word_sub_Some:
  "[] \<notin> set ws \<Longrightarrow> first_match ws s = Some w \<Longrightarrow>
     word_sub d ws adv s = repl d w @ word_sub d ws False (drop (length w) s)"
  by (subst word_sub_nonempty) simp_all

lemma first_match_None: "\<forall>k \<in> set ws. \<not> prefix k x \<Longrightarrow> first_match ws x = None"
  by (induction ws) auto

text \<open>
  A stretch \<open>pre\<close> in which no word matches at any position is copied, and the scan goes
  on behind it.
\<close>

lemma word_sub_literal:
  assumes "\<forall>i < length pre. \<forall>k \<in> set ws. \<not> prefix k (drop i (pre @ x))"
  shows "word_sub d ws False (pre @ x) = pre @ word_sub d ws False x"
  using assms
proof (induction pre)
  case Nil
  show ?case by simp
next
  case (Cons c p)
  from Cons.prems have 0: "\<forall>k \<in> set ws. \<not> prefix k (c # p @ x)"
    by (auto dest: spec [of _ 0])
  then have ne: "[] \<notin> set ws" by auto
  from 0 have fm: "first_match ws (c # p @ x) = None" by (rule first_match_None)
  have "\<forall>i < length p. \<forall>k \<in> set ws. \<not> prefix k (drop i (p @ x))"
  proof (intro allI impI)
    fix i assume "i < length p"
    then have "Suc i < length (c # p)" by simp
    with Cons.prems have "\<forall>k \<in> set ws. \<not> prefix k (drop (Suc i) ((c # p) @ x))" by blast
    then show "\<forall>k \<in> set ws. \<not> prefix k (drop i (p @ x))" by simp
  qed
  then have "word_sub d ws False (p @ x) = p @ word_sub d ws False x" by (rule Cons.IH)
  with word_sub_None_Cons [OF ne fm, of d False] show ?case by simp
qed

text \<open>What the replacement leaves of a part: a literal prefix, then nothing or a token.\<close>

lemma word_sub_shape:
  assumes "[] \<notin> set ws" and "\<forall>w \<in> set ws. \<exists>r. repl d w = 91 # r"
  shows "\<exists>lit tl'. word_sub d ws adv p = lit @ tl' \<and> prefix lit p \<and>
     ((tl' = [] \<and> lit = p) \<or> (\<exists>r. tl' = 91 # r))"
proof (induction p arbitrary: adv)
  case Nil
  show ?case
  proof (cases "first_match ws []")
    case None
    then show ?thesis using assms(1) by (simp add: word_sub_None_Nil)
  next
    case (Some w)
    with assms(1) have "w \<in> set ws" "prefix w []" using first_match_mem by blast+
    with assms(1) show ?thesis by auto
  qed
next
  case (Cons c cs)
  show ?case
  proof (cases "first_match ws (c # cs)")
    case None
    from Cons [of False] obtain lit tl' where
      "word_sub d ws False cs = lit @ tl'" "prefix lit cs"
      "(tl' = [] \<and> lit = cs) \<or> (\<exists>r. tl' = 91 # r)" by blast
    then have "word_sub d ws adv (c # cs) = (c # lit) @ tl' \<and> prefix (c # lit) (c # cs) \<and>
        ((tl' = [] \<and> c # lit = c # cs) \<or> (\<exists>r. tl' = 91 # r))"
      using None assms(1) by (simp add: word_sub_None_Cons)
    then show ?thesis by blast
  next
    case (Some w)
    then have "w \<in> set ws" using first_match_mem by blast
    with assms(2) obtain r where "repl d w = 91 # r" by blast
    then have "word_sub d ws adv (c # cs) =
        [] @ (91 # r @ word_sub d ws False (drop (length w) (c # cs))) \<and> prefix [] (c # cs) \<and>
        (\<exists>r'. 91 # r @ word_sub d ws False (drop (length w) (c # cs)) = 91 # r')"
      using Some assms(1) by (simp add: word_sub_Some)
    then show ?thesis by blast
  qed
qed

lemma literal_no_match:
  assumes ws: "[] \<notin> set ws" "\<forall>w \<in> set ws. \<exists>r. repl d w = 91 # r"
    and free: "\<not> mask_match (c # cs)"
    and rest: "rest = [] \<or> mask_match rest"
  shows "\<not> mask_match (c # word_sub d ws adv cs @ rest)"
proof -
  from word_sub_shape [OF ws, of adv cs] obtain lit tl' where
    w: "word_sub d ws adv cs = lit @ tl'" and p: "prefix lit cs"
    and t: "(tl' = [] \<and> lit = cs) \<or> (\<exists>r. tl' = 91 # r)" by blast
  from rest have r: "rest = [] \<or> (\<exists>r. rest = 91 # r)"
    using mask_match_hd by blast
  have "tl' @ rest = [] \<or> (\<exists>r. tl' @ rest = 91 # r)"
    using t r by auto
  then have "mask_match ((c # lit) @ tl' @ rest) = mask_match (c # lit)"
    by (intro mask_match_border) auto
  moreover have "\<not> mask_match (c # lit)"
  proof
    assume m: "mask_match (c # lit)"
    from p obtain z where "cs = lit @ z" by (auto simp: prefix_def)
    then have "c # cs = (c # lit) @ z" by simp
    moreover from m have "15 \<le> length (c # lit)" by (rule mask_match_length)
    ultimately have "mask_match (c # cs) = mask_match (c # lit)"
      using mask_match_append by metis
    with m free show False by simp
  qed
  ultimately show ?thesis using w by simp
qed

lemma mask_sub_word_sub:
  assumes ws: "[] \<notin> set ws"
    and tok: "\<forall>w \<in> set ws. \<exists>t. dict_get d w = Some t \<and> is_token t \<and> dict_get r t = Some w"
    and rest: "rest = [] \<or> mask_match rest"
  shows "mask_findall p = [] \<Longrightarrow> mask_sub r (word_sub d ws adv p @ rest) = p @ mask_sub r rest"
proof (induction p arbitrary: adv rule: length_induct)
  case (1 p)
  have hd91: "\<forall>w \<in> set ws. \<exists>r. repl d w = 91 # r"
  proof
    fix w assume "w \<in> set ws"
    with tok obtain t where "dict_get d w = Some t" "is_token t" by blast
    then show "\<exists>r. repl d w = 91 # r"
      using mask_match_hd by (auto simp: repl_def is_token_def)
  qed
  show ?case
  proof (cases "first_match ws p")
    case None
    show ?thesis
    proof (cases p)
      case Nil
      with None ws show ?thesis by (simp add: word_sub_None_Nil)
    next
      case (Cons c cs)
      from "1.prems" Cons have nm: "\<not> mask_match (c # cs)" and f: "mask_findall cs = []"
        by (auto split: if_splits)
      have "\<not> mask_match (c # word_sub d ws False cs @ rest)"
        using ws hd91 nm rest by (rule literal_no_match)
      moreover have "mask_sub r (word_sub d ws False cs @ rest) = cs @ mask_sub r rest"
        using "1.IH" f Cons by simp
      ultimately show ?thesis
        using None Cons ws by (simp add: word_sub_None_Cons)
    qed
  next
    case (Some w)
    then have mem: "w \<in> set ws" and pre: "prefix w p" using first_match_mem by blast+
    with ws have ne: "w \<noteq> []" by auto
    from pre obtain p' where p: "p = w @ p'" by (auto simp: prefix_def)
    from mem tok obtain t where t: "dict_get d w = Some t" "is_token t" "dict_get r t = Some w"
      by blast
    have "mask_findall p' = []"
      using "1.prems" p findall_nil_suffix by blast
    moreover have "length p' < length p" using p ne by simp
    ultimately have ih: "mask_sub r (word_sub d ws False p' @ rest) = p' @ mask_sub r rest"
      using "1.IH" by blast
    have "word_sub d ws adv p = t @ word_sub d ws False p'"
      using Some ws t(1) p by (simp add: word_sub_Some repl_def)
    moreover have "mask_sub r ([] @ t @ (word_sub d ws False p' @ rest)) =
        mask_sub r [] @ repl r t @ mask_sub r (word_sub d ws False p' @ rest)"
      using t(2) by (rule mask_sub_token)
    ultimately show ?thesis
      using ih t(3) p by (simp add: repl_def)
  qed
qed

lemma findall_decompose:
  "mask_findall x \<noteq> [] \<Longrightarrow>
     \<exists>p t y. x = p @ t @ y \<and> is_token t \<and> mask_findall p = [] \<and>
       mask_findall x = t # mask_findall y"
proof (induction x rule: mask_findall.induct)
  case 1
  then show ?case by simp
next
  case (2 c cs)
  show ?case
  proof (cases "mask_match (c # cs)")
    case True
    then have l: "15 \<le> length (c # cs)" by (rule mask_match_length)
    let ?t = "take 15 (c # cs)"
    have "is_token ?t" using True l mask_match_take [of "c # cs"] by (simp add: is_token_def)
    moreover have "c # cs = [] @ ?t @ drop 15 (c # cs)" by simp
    moreover have "mask_findall (c # cs) = ?t # mask_findall (drop 15 (c # cs))"
      using True by simp
    ultimately show ?thesis
      by (intro exI [of _ "[]"] exI [of _ ?t] exI [of _ "drop 15 (c # cs)"]) simp
  next
    case False
    with "2.prems" have "mask_findall cs \<noteq> []" by simp
    with 2 False obtain p t y where x: "cs = p @ t @ y" and t: "is_token t"
      and p: "mask_findall p = []" and f: "mask_findall cs = t # mask_findall y"
      by auto
    have "mask_match ((c # p) @ t @ y) = mask_match (c # p)"
      using t by (intro mask_match_straddle) (auto simp: is_token_def)
    with False x have "\<not> mask_match (c # p)" by simp
    with p have "mask_findall (c # p) = []" by simp
    moreover have "c # cs = (c # p) @ t @ y" using x by simp
    moreover have "mask_findall (c # cs) = t # mask_findall y" using False f by simp
    ultimately show ?thesis using t by blast
  qed
qed

lemma mask_sub_unknown:
  "\<forall>t \<in> set (mask_findall x). dict_get r t = None \<Longrightarrow> mask_sub r x = x"
proof (induction r x rule: mask_sub.induct)
  case (1 r)
  show ?case by simp
next
  case (2 r c cs)
  show ?case
  proof (cases "mask_match (c # cs)")
    case True
    then have "15 \<le> length (c # cs)" by (rule mask_match_length)
    with True 2 show ?thesis by (simp add: repl_def)
  next
    case False
    with 2 show ?thesis by simp
  qed
qed

lemma roundtrip_core:
  assumes ws: "[] \<notin> fst ` set (mapping s)"
    and tok: "\<forall>w t. dict_get (mapping s) w = Some t \<longrightarrow> is_token t \<and> dict_get (reverse s) t = Some w"
  shows "\<forall>t \<in> set (mask_findall x). dict_get (reverse s) t = None \<Longrightarrow>
    \<exists>y. enc s x = Inr y \<and> mask_sub (reverse s) y = x"
proof (induction x rule: length_induct)
  case (1 x)
  show ?case
  proof (cases "mapping s = []")
    case True
    with "1.prems" show ?thesis by (simp add: enc_def mask_sub_unknown)
  next
    case ne: False
    let ?ws = "sorted_words (mapping s)"
    have ws': "[] \<notin> set ?ws" using ws by (simp add: set_sorted_words)
    have tok': "\<forall>w \<in> set ?ws. \<exists>t. dict_get (mapping s) w = Some t \<and> is_token t \<and>
        dict_get (reverse s) t = Some w"
    proof
      fix w assume "w \<in> set ?ws"
      then have "dict_get (mapping s) w \<noteq> None"
        by (simp add: set_sorted_words dict_get_None_iff)
      with tok show "\<exists>t. dict_get (mapping s) w = Some t \<and> is_token t \<and>
          dict_get (reverse s) t = Some w" by auto
    qed
    show ?thesis
    proof (cases "mask_findall x = []")
      case True
      have "mask_sub (reverse s) (word_sub (mapping s) ?ws False x @ []) = x @ mask_sub (reverse s) []"
        using ws' tok' _ True by (rule mask_sub_word_sub) simp
      with ne True show ?thesis by (simp add: enc_no_token)
    next
      case False
      then obtain p t y where x: "x = p @ t @ y" and t: "is_token t"
        and p: "mask_findall p = []" and f: "mask_findall x = t # mask_findall y"
        using findall_decompose by blast
      from f "1.prems" have unk: "dict_get (reverse s) t = None"
        and "\<forall>t \<in> set (mask_findall y). dict_get (reverse s) t = None" by auto
      moreover have "length y < length x" using x t by (simp add: is_token_def)
      ultimately obtain y' where y': "enc s y = Inr y'" "mask_sub (reverse s) y' = y"
        using "1.IH" by blast
      from enc_around_token [OF t, of s p y] y' p ne
      have e: "enc s x = Inr (word_sub (mapping s) ?ws False p @ t @ y')"
        by (simp add: x enc_no_token)
      have "mask_match (t @ y')" using t by (simp add: is_token_take)
      then have "mask_sub (reverse s) (word_sub (mapping s) ?ws False p @ (t @ y')) =
          p @ mask_sub (reverse s) (t @ y')"
        using ws' tok' _ p by (intro mask_sub_word_sub) auto
      moreover have "mask_sub (reverse s) ([] @ t @ y') =
          mask_sub (reverse s) [] @ repl (reverse s) t @ mask_sub (reverse s) y'"
        using t by (rule mask_sub_token)
      ultimately have "mask_sub (reverse s) (word_sub (mapping s) ?ws False p @ t @ y') = x"
        using unk y' x by (simp add: repl_def)
      with e show ?thesis by simp
    qed
  qed
qed

section \<open>Properties of \<open>save\<close>, \<open>load\<close>, \<open>process\<close> and \<open>batch\<close>\<close>

lemma dict_set_append: "k \<notin> fst ` set d \<Longrightarrow> dict_set d k v = d @ [(k, v)]"
  by (induction d k v rule: dict_set.induct) auto

lemma dict_update_fresh:
  "distinct (map fst m) \<Longrightarrow> fst ` set d \<inter> fst ` set m = {} \<Longrightarrow> dict_update d m = d @ m"
proof (induction m arbitrary: d)
  case Nil
  then show ?case by simp
next
  case (Cons kv m)
  obtain k v where kv: "kv = (k, v)" by (cases kv)
  from Cons.prems kv have "k \<notin> fst ` set d" by auto
  then have "dict_set d k v = d @ [(k, v)]" by (rule dict_set_append)
  moreover have "dict_update (d @ [(k, v)]) m = (d @ [(k, v)]) @ m"
    using Cons.prems kv by (intro Cons.IH) auto
  ultimately show ?case using kv by simp
qed

lemma dict_update_empty: "distinct (map fst m) \<Longrightarrow> dict_update [] m = m"
  using dict_update_fresh [of m "[]"] by simp

lemma dict_update_other:
  "k \<notin> fst ` set m \<Longrightarrow> dict_get (dict_update d m) k = dict_get d k"
  by (induction d m rule: dict_update.induct) (auto simp: dict_get_set)

lemma dict_update_member:
  "distinct (map fst m) \<Longrightarrow> (k, v) \<in> set m \<Longrightarrow> dict_get (dict_update d m) k = Some v"
proof (induction d m rule: dict_update.induct)
  case (1 d)
  then show ?case by simp
next
  case (2 d k' v' kvs)
  show ?case
  proof (cases "(k, v) = (k', v')")
    case True
    with "2.prems" have "k \<notin> fst ` set kvs" by auto
    then have "dict_get (dict_update (dict_set d k' v') kvs) k = dict_get (dict_set d k' v') k"
      by (rule dict_update_other)
    with True show ?thesis by (simp add: dict_get_set)
  next
    case False
    with 2 show ?thesis by auto
  qed
qed

lemma str_items_dict_json: "str_items (map (\<lambda>(k, v). (k, JStr v)) d) = Some d"
  by (induction d) auto

lemma str_items_Some: "str_items kvs = Some d \<Longrightarrow> kvs = map (\<lambda>(k, v). (k, JStr v)) d"
  by (induction kvs arbitrary: d rule: str_items.induct) (auto split: option.splits)

lemma update_arg_dict_json: "update_arg (dict_json d) = Items d"
  by (simp add: dict_json_def str_items_dict_json)

lemma is_str_dict_iff: "is_str_dict j \<longleftrightarrow> (\<exists>d. j = dict_json d)"
  by (cases j) (auto simp: is_str_dict_def dict_json_def str_items_dict_json dest: str_items_Some)

lemma key_names:
  "ascii ''mapping'' \<noteq> ascii ''reverse''" "ascii ''reverse'' \<noteq> ascii ''mapping''"
  by (simp_all add: ascii_def)

lemma load_snapshot:
  assumes "fs w p = Some (JsonFile (snapshot s0))"
  shows "load s w p = Loaded (s\<lparr>mapping := dict_update (mapping s) (mapping s0),
                                reverse := dict_update (reverse s) (reverse s0)\<rparr>)"
  using assms
  by (simp add: load_def read_json_def snapshot_def json_get_def update_arg_dict_json key_names)

lemma save_Inr:
  "save s w p = (Inr mp, s', w') \<Longrightarrow>
     mp = mapping_path p \<and> s' = s\<lparr>json_paths := json_paths s @ [mp]\<rparr> \<and>
     w' = w\<lparr>fs := (fs w)(mp \<mapsto> JsonFile (snapshot s))\<rparr> \<and> fs w mp \<noteq> Some Folder"
  by (auto simp: save_def Let_def write_file_def split: option.splits fobj.splits)

lemma save_mapping:
  "save s w p = (r, s', w') \<Longrightarrow> mapping s' = mapping s \<and> reverse s' = reverse s"
  by (auto simp: save_def Let_def split: sum.splits)

lemma process_mapping:
  assumes "process s w f words mode = (r, s', w')"
  shows "mapping s' = mapping s \<and> reverse s' = reverse s"
proof (cases "path_exists w f")
  case False
  with assms show ?thesis by (simp add: process_def)
next
  case True
  show ?thesis
  proof (cases "H (lower (snd (splitext f)))")
    case None
    with assms True show ?thesis by (auto simp: process_def Let_def split: if_splits)
  next
    case (Some h)
    obtain eo w1 where h: "h w f (dst_path f mode) (if is_enc mode then enc s else dec s) = (eo, w1)"
      by (cases "h w f (dst_path f mode) (if is_enc mode then enc s else dec s)") auto
    show ?thesis
    proof (cases "eo = None \<and> is_enc mode")
      case False
      with assms True Some h show ?thesis
        by (cases eo) (auto simp: process_def Let_def split: if_splits)
    next
      case e: True
      obtain r2 s2 w2 where sv: "save s w1 (dst_path f mode) = (r2, s2, w2)"
        by (cases "save s w1 (dst_path f mode)") auto
      with assms True Some h e have "s' = s2"
        by (cases r2) (auto simp: process_def Let_def)
      with save_mapping [OF sv] show ?thesis by simp
    qed
  qed
qed

lemma process_Inr:
  assumes "process s w f words mode = (Inr (out, mp), s', w')"
  shows "out = dst_path f mode \<and>
     mp = (if is_enc mode then Some (mapping_path (dst_path f mode)) else None)"
proof (cases "path_exists w f")
  case False
  with assms show ?thesis by (simp add: process_def)
next
  case True
  show ?thesis
  proof (cases "H (lower (snd (splitext f)))")
    case None
    with assms True show ?thesis by (auto simp: process_def Let_def split: if_splits)
  next
    case (Some h)
    obtain eo w1 where h: "h w f (dst_path f mode) (if is_enc mode then enc s else dec s) = (eo, w1)"
      by (cases "h w f (dst_path f mode) (if is_enc mode then enc s else dec s)") auto
    show ?thesis
    proof (cases "eo = None \<and> is_enc mode")
      case False
      with assms True Some h show ?thesis
        by (cases eo) (auto simp: process_def Let_def split: if_splits)
    next
      case e: True
      obtain r2 s2 w2 where sv: "save s w1 (dst_path f mode) = (r2, s2, w2)"
        by (cases "save s w1 (dst_path f mode)") auto
      with assms True Some h e obtain mp' where "r2 = Inr mp'" "mp = Some mp'" "out = dst_path f mode"
        by (cases r2) (auto simp: process_def Let_def)
      with save_Inr [of s w1 "dst_path f mode" mp' s2 w2] sv e show ?thesis by simp
    qed
  qed
qed



text \<open>The tuple \<open>batch\<close> appends for a file when the callback returns.\<close>

lemma batch_loop_step:
  assumes "cb_returns cb"
  shows "batch_loop cb n i words mode acc s w (fp # fps) =
    (case process s w fp words mode of
       (Inr (out, mp), s', w') \<Rightarrow>
         batch_loop cb n (Suc i) words mode (acc @ [(fp, Some out, None, mp)]) s' w' fps
     | (Inl e, s', w') \<Rightarrow>
         batch_loop cb n (Suc i) words mode (acc @ [(fp, None, Some e, None)]) s' w' fps)"
  using assms by (simp add: cb_returns_def split: prod.splits sum.splits)

lemma batch_loop_mapping:
  "batch_loop cb n i words mode acc s w fps = (r, s', w') \<Longrightarrow>
     mapping s' = mapping s \<and> reverse s' = reverse s"
proof (induction fps arbitrary: i acc s w)
  case Nil
  then show ?case by simp
next
  case (Cons x xs)
  obtain pr s1 w1 where p: "process s w x words mode = (pr, s1, w1)"
    by (cases "process s w x words mode") auto
  note m = process_mapping [OF p]
  show ?case
  proof (cases pr)
    case (Inl e)
    show ?thesis
    proof (cases "call_cb cb (i + 1) n (basename x) tag_failed")
      case None
      with Cons.prems p Inl have
        "batch_loop cb n (i + 1) words mode (acc @ [(x, None, Some e, None)]) s1 w1 xs = (r, s', w')"
        by simp
      from Cons.IH [OF this] m show ?thesis by simp
    next
      case (Some e')
      with Cons.prems p Inl m show ?thesis by auto
    qed
  next
    case (Inr om)
    obtain out mp where om: "om = (out, mp)" by (cases om)
    show ?thesis
    proof (cases "call_cb cb (i + 1) n (basename x) tag_done")
      case None
      with Cons.prems p Inr om have
        "batch_loop cb n (i + 1) words mode (acc @ [(x, Some out, None, mp)]) s1 w1 xs = (r, s', w')"
        by simp
      from Cons.IH [OF this] m show ?thesis by simp
    next
      case (Some e)
      show ?thesis
      proof (cases "call_cb cb (i + 1) n (basename x) tag_failed")
        case None
        with Cons.prems p Inr om Some have
          "batch_loop cb n (i + 1) words mode
             (acc @ [(x, Some out, None, mp), (x, None, Some e, None)]) s1 w1 xs = (r, s', w')"
          by simp
        from Cons.IH [OF this] m show ?thesis by simp
      next
        case (Some e')
        with Cons.prems p Inr om \<open>call_cb cb (i + 1) n (basename x) tag_done = Some e\<close> m
        show ?thesis by auto
      qed
    qed
  qed
qed

text \<open>
  With a callback that returns, the loop returns the list it was given followed by one
  entry for every file; the entries depend neither on the callback nor on the counters.
\<close>

lemma batch_loop_returns:
  assumes "cb_returns cb"
  shows "\<exists>rs s' w'.
     batch_loop cb n i words mode acc s w fps = (Inr (acc @ rs), s', w') \<and>
     (\<forall>cb' n' i' acc'. cb_returns cb' \<longrightarrow>
        batch_loop cb' n' i' words mode acc' s w fps = (Inr (acc' @ rs), s', w')) \<and>
     map fst rs = fps \<and>
     (\<forall>(fp, out, err, mp) \<in> set rs.
        (err = None \<longrightarrow> out = Some (dst_path fp mode) \<and>
           mp = (if is_enc mode then Some (mapping_path (dst_path fp mode)) else None)) \<and>
        (err \<noteq> None \<longrightarrow> out = None \<and> mp = None))"
proof (induction fps arbitrary: i acc s w)
  case Nil
  show ?case by simp
next
  case (Cons x xs)
  obtain pr s1 w1 where p: "process s w x words mode = (pr, s1, w1)"
    by (cases "process s w x words mode") auto
  define ent :: outcome where
    "ent = (case pr of Inr (out, mp) \<Rightarrow> (x, Some out, None, mp) | Inl e \<Rightarrow> (x, None, Some e, None))"
  have step: "batch_loop cb' n' i' words mode acc' s w (x # xs) =
      batch_loop cb' n' (Suc i') words mode (acc' @ [ent]) s1 w1 xs"
    if "cb_returns cb'" for cb' n' i' acc'
    unfolding batch_loop_step [OF that] p
    by (cases pr) (auto simp: ent_def)
  obtain rs s' w' where
    ih: "batch_loop cb n (Suc i) words mode (acc @ [ent]) s1 w1 xs = (Inr ((acc @ [ent]) @ rs), s', w')"
      "\<forall>cb' n' i' acc'. cb_returns cb' \<longrightarrow>
        batch_loop cb' n' i' words mode acc' s1 w1 xs = (Inr (acc' @ rs), s', w')"
      "map fst rs = xs"
      "\<forall>(fp, out, err, mp) \<in> set rs.
        (err = None \<longrightarrow> out = Some (dst_path fp mode) \<and>
           mp = (if is_enc mode then Some (mapping_path (dst_path fp mode)) else None)) \<and>
        (err \<noteq> None \<longrightarrow> out = None \<and> mp = None)"
    using Cons [of "Suc i" "acc @ [ent]" s1 w1] by (elim exE conjE) (rule that)
  have e1: "fst ent = x" by (cases pr) (auto simp: ent_def)
  have e2: "case ent of (fp, out, err, mp) \<Rightarrow>
        (err = None \<longrightarrow> out = Some (dst_path fp mode) \<and>
           mp = (if is_enc mode then Some (mapping_path (dst_path fp mode)) else None)) \<and>
        (err \<noteq> None \<longrightarrow> out = None \<and> mp = None)"
  proof (cases pr)
    case (Inl e)
    then show ?thesis by (simp add: ent_def)
  next
    case (Inr om)
    obtain out mp where om: "om = (out, mp)" by (cases om)
    from p Inr om have "out = dst_path x mode \<and>
        mp = (if is_enc mode then Some (mapping_path (dst_path x mode)) else None)"
      by (intro process_Inr) simp
    with Inr om show ?thesis by (simp add: ent_def)
  qed
  have r1: "batch_loop cb n i words mode acc s w (x # xs) = (Inr (acc @ ent # rs), s', w')"
    using step [OF assms] ih(1) by simp
  have r2: "\<forall>cb' n' i' acc'. cb_returns cb' \<longrightarrow>
      batch_loop cb' n' i' words mode acc' s w (x # xs) = (Inr (acc' @ ent # rs), s', w')"
  proof (intro allI impI)
    fix cb' n' i' acc' assume c: "cb_returns cb'"
    from ih(2) c have "batch_loop cb' n' (Suc i') words mode (acc' @ [ent]) s1 w1 xs =
        (Inr ((acc' @ [ent]) @ rs), s', w')" by blast
    with step [OF c] show "batch_loop cb' n' i' words mode acc' s w (x # xs) =
        (Inr (acc' @ ent # rs), s', w')" by simp
  qed
  have r3: "map fst (ent # rs) = x # xs" using e1 ih(3) by simp
  have r4: "\<forall>(fp, out, err, mp) \<in> set (ent # rs).
        (err = None \<longrightarrow> out = Some (dst_path fp mode) \<and>
           mp = (if is_enc mode then Some (mapping_path (dst_path fp mode)) else None)) \<and>
        (err \<noteq> None \<longrightarrow> out = None \<and> mp = None)"
    using e2 ih(4) by simp
  from r1 r2 r3 r4 show ?case
    by (intro exI [of _ "ent # rs"] exI [of _ s'] exI [of _ w'] conjI)
qed

lemma batch_alt:
  "batch s g w files words mode cb = (r, s', g', w') \<longleftrightarrow>
     g' = snd (if is_enc mode then build s words g else (s, g)) \<and>
     batch_loop cb (length files) 0 words mode []
       (fst (if is_enc mode then build s words g else (s, g))) w files = (r, s', w')"
  by (auto simp: batch_def split: prod.splits)

lemma batch_returns:
  assumes "cb_returns cb"
  shows "\<exists>rs s' g' w'. batch s g w files words mode cb = (Inr rs, s', g', w') \<and>
     map fst rs = files \<and>
     (\<forall>(fp, out, err, mp) \<in> set rs.
        (err = None \<longrightarrow> out = Some (dst_path fp mode) \<and>
           mp = (if is_enc mode then Some (mapping_path (dst_path fp mode)) else None)) \<and>
        (err \<noteq> None \<longrightarrow> out = None \<and> mp = None))"
proof -
  let ?s0 = "fst (if is_enc mode then build s words g else (s, g))"
  let ?g0 = "snd (if is_enc mode then build s words g else (s, g))"
  obtain rs s' w' where
    r: "batch_loop cb (length files) 0 words mode [] ?s0 w files = (Inr ([] @ rs), s', w')"
    and m: "map fst rs = files"
    and sh: "\<forall>(fp, out, err, mp) \<in> set rs.
        (err = None \<longrightarrow> out = Some (dst_path fp mode) \<and>
           mp = (if is_enc mode then Some (mapping_path (dst_path fp mode)) else None)) \<and>
        (err \<noteq> None \<longrightarrow> out = None \<and> mp = None)"
    using batch_loop_returns [OF assms, of "length files" 0 words mode "[]" ?s0 w files]
    by (elim exE conjE) (rule that)
  from r have "batch s g w files words mode cb = (Inr rs, s', ?g0, w')"
    unfolding batch_alt by simp
  with m sh show ?thesis
    by (intro exI [of _ rs] exI [of _ s'] exI [of _ ?g0] exI [of _ w'] conjI)
qed


lemma cb_returns_None: "cb_returns None"
  by (simp add: cb_returns_def call_cb_def)



lemmas eval_world =
  path_split_def dirname_def basename_def splitext_def path_join_def lower_def dir_or_dot_def
  MAPPING_SUFFIX_def mapping_path_def path_exists_def write_file_def read_text_def
  read_json_def dict_json_def snapshot_def save_def json_get_def load_def auto_load_def
  H_def handle_txt_def is_enc_def dst_path_def process_def batch_def ok_results_def
  fail_results_def words_of_def placeholder_def run_def run_batch_def is_sep_def call_cb_def
  tag_done_def tag_failed_def quiet_cb_def cb_fails_on_def handle_docx_def
  valid_snapshot_def is_str_dict_def sample_world_def

section \<open>The claims about \<open>_enc\<close> and \<open>_dec\<close>\<close>

text \<open>
  C2. Token non-interference: a well-formed token inside a text is neither altered nor
  partly consumed by \<open>_enc\<close>, whatever the mapping holds. Masking the text around the
  token is masking what stands before it and what stands behind it separately, with
  the token itself between the two results; no word is matched across its borders or
  inside it.
\<close>

theorem enc_keeps_token:
  assumes "is_token t"
  shows "\<exists>a' b'. enc s a = Inr a' \<and> enc s b = Inr b' \<and> enc s (a @ t @ b) = Inr (a' @ t @ b')"
  using assms by (rule enc_around_token)


theorem enc_keeps_token_witness:
  "is_token (ascii ''[MASK_AAAAAAAA]'') \<and>
   enc (fst (build new_scrubber [ascii ''A''] sample_rng)) (ascii ''A[MASK_AAAAAAAA]A'') =
     Inr (ascii ''[MASK_00000001][MASK_AAAAAAAA][MASK_00000001]'')"
proof -
  let ?s = "fst (build new_scrubber [ascii ''A''] sample_rng)"
  have tok: "is_token (ascii ''[MASK_AAAAAAAA]'')"
    by (simp add: eval_defs)
  have s: "?s = \<lparr>mapping = [([65], ascii ''[MASK_00000001]'')],
      reverse = [(ascii ''[MASK_00000001]'', [65])], json_paths = []\<rparr>"
    by (simp add: eval_defs)
  have a: "enc ?s (ascii ''A'') = Inr (ascii ''[MASK_00000001]'')"
    unfolding s by (simp add: eval_defs)
  have "ascii ''A[MASK_AAAAAAAA]A'' = ascii ''A'' @ ascii ''[MASK_AAAAAAAA]'' @ ascii ''A''"
    by (simp add: ascii_def)
  with enc_keeps_token [OF tok, of ?s "ascii ''A''" "ascii ''A''"] a tok
  show ?thesis by (simp add: ascii_def)
qed

text \<open>
  C3. Longest match at any position. The words are tried longest first. In a text
  without tokens, let \<open>pre\<close> be a stretch in which no mapped word matches at any position,
  and let the mapped word \<open>w\<close> stand right behind it, no longer mapped word standing at
  that position: \<open>_enc\<close> copies \<open>pre\<close>, puts the token of \<open>w\<close> and goes on behind \<open>w\<close>. A
  text in which no mapped word matches anywhere is returned as it is. The two equations
  fix the result of \<open>_enc\<close> on every text without tokens. With \<open>A\<close> and \<open>AB\<close> mapped,
  \<open>AB\<close> becomes the one token of \<open>AB\<close>, and \<open>xAB\<close> becomes \<open>x\<close> and that token.
\<close>

theorem enc_longest_match:
  shows "sorted_wrt (\<lambda>a b. length b \<le> length a) (sorted_words (mapping s)) \<and>
    (dict_get (mapping s) w = Some t \<and> w \<noteq> [] \<and> mask_findall (pre @ w @ rest) = [] \<and>
     (\<forall>i < length pre. \<forall>k \<in> set (map fst (mapping s)). \<not> prefix k (drop i (pre @ w @ rest))) \<and>
     (\<forall>k \<in> set (map fst (mapping s)). prefix k (w @ rest) \<longrightarrow> length k \<le> length w) \<longrightarrow>
       (\<exists>r'. enc s rest = Inr r' \<and> enc s (pre @ w @ rest) = Inr (pre @ t @ r'))) \<and>
    (mask_findall x = [] \<and>
     (\<forall>i \<le> length x. \<forall>k \<in> set (map fst (mapping s)). \<not> prefix k (drop i x)) \<longrightarrow>
       enc s x = Inr x)"
proof (intro conjI impI)
  show "sorted_wrt (\<lambda>a b. length b \<le> length a) (sorted_words (mapping s))"
    by (rule sorted_words_desc)
next
  let ?ws = "sorted_words (mapping s)"
  assume a: "dict_get (mapping s) w = Some t \<and> w \<noteq> [] \<and> mask_findall (pre @ w @ rest) = [] \<and>
     (\<forall>i < length pre. \<forall>k \<in> set (map fst (mapping s)). \<not> prefix k (drop i (pre @ w @ rest))) \<and>
     (\<forall>k \<in> set (map fst (mapping s)). prefix k (w @ rest) \<longrightarrow> length k \<le> length w)"
  then have get: "dict_get (mapping s) w = Some t" and wne: "w \<noteq> []"
    and nt: "mask_findall (pre @ w @ rest) = []"
    and lit: "\<forall>i < length pre. \<forall>k \<in> set ?ws. \<not> prefix k (drop i (pre @ (w @ rest)))"
    and lng: "\<forall>k \<in> set ?ws. prefix k (w @ rest) \<longrightarrow> length k \<le> length w"
    by (simp_all add: set_sorted_words)
  from get have mem: "(w, t) \<in> set (mapping s)"
    by (simp add: dict_get_def map_of_SomeD)
  then have ne: "mapping s \<noteq> []" by auto
  from mem have "w \<in> set ?ws" by (force simp: set_sorted_words)
  with lng have fm: "first_match ?ws (w @ rest) = Some w"
    using sorted_words_desc by (intro first_match_longest) auto
  have w1: "word_sub (mapping s) ?ws False (w @ rest) =
      t @ word_sub (mapping s) ?ws False rest"
    using fm get wne by (subst word_sub.simps) (simp add: repl_def)
  have w2: "word_sub (mapping s) ?ws False (pre @ (w @ rest)) =
      pre @ word_sub (mapping s) ?ws False (w @ rest)"
    using lit by (rule word_sub_literal)
  from nt have "mask_findall (w @ rest) = []" by (rule findall_nil_suffix)
  then have nr: "mask_findall rest = []" by (rule findall_nil_suffix)
  have "enc s rest = Inr (word_sub (mapping s) ?ws False rest)"
    using ne nr by (rule enc_no_token)
  moreover have "enc s (pre @ w @ rest) = Inr (pre @ t @ word_sub (mapping s) ?ws False rest)"
    using enc_no_token [OF ne nt] w1 w2 by simp
  ultimately show "\<exists>r'. enc s rest = Inr r' \<and> enc s (pre @ w @ rest) = Inr (pre @ t @ r')"
    by simp
next
  let ?ws = "sorted_words (mapping s)"
  assume a: "mask_findall x = [] \<and>
     (\<forall>i \<le> length x. \<forall>k \<in> set (map fst (mapping s)). \<not> prefix k (drop i x))"
  then have nt: "mask_findall x = []"
    and no: "\<forall>i \<le> length x. \<forall>k \<in> set ?ws. \<not> prefix k (drop i x)"
    by (simp_all add: set_sorted_words)
  show "enc s x = Inr x"
  proof (cases "mapping s = []")
    case True
    then show ?thesis by (simp add: enc_def)
  next
    case False
    from no have "\<forall>k \<in> set ?ws. \<not> prefix k (drop (length x) x)" by blast
    then have e: "\<forall>k \<in> set ?ws. \<not> prefix k []" by simp
    then have "[] \<notin> set ?ws" by auto
    moreover from e have "first_match ?ws [] = None" by (rule first_match_None)
    ultimately have nil: "word_sub (mapping s) ?ws False [] = []" by (rule word_sub_None_Nil)
    from no have "\<forall>i < length x. \<forall>k \<in> set ?ws. \<not> prefix k (drop i (x @ []))" by simp
    then have "word_sub (mapping s) ?ws False (x @ []) = x @ word_sub (mapping s) ?ws False []"
      by (rule word_sub_literal)
    with nil have "word_sub (mapping s) ?ws False x = x" by simp
    with enc_no_token [OF False nt] show ?thesis by simp
  qed
qed

theorem enc_longest_match_witness:
  "dict_get (mapping (fst (build new_scrubber [ascii ''A'', ascii ''AB''] sample_rng))) (ascii ''AB'') =
     Some (ascii ''[MASK_00000002]'') \<and>
   dict_get (mapping (fst (build new_scrubber [ascii ''A'', ascii ''AB''] sample_rng))) (ascii ''A'') =
     Some (ascii ''[MASK_00000001]'') \<and>
   enc (fst (build new_scrubber [ascii ''A'', ascii ''AB''] sample_rng)) (ascii ''AB'') =
     Inr (ascii ''[MASK_00000002]'') \<and>
   enc (fst (build new_scrubber [ascii ''A'', ascii ''AB''] sample_rng)) (ascii ''xAB'') =
     Inr (ascii ''x[MASK_00000002]'') \<and>
   enc (fst (build new_scrubber [ascii ''A'', ascii ''AB''] sample_rng)) (ascii ''xy'') =
     Inr (ascii ''xy'')"
proof -
  let ?s = "fst (build new_scrubber [ascii ''A'', ascii ''AB''] sample_rng)"
  have s: "?s = \<lparr>mapping = [(ascii ''A'', ascii ''[MASK_00000001]''), (ascii ''AB'', ascii ''[MASK_00000002]'')],
       reverse = [(ascii ''[MASK_00000001]'', ascii ''A''), (ascii ''[MASK_00000002]'', ascii ''AB'')],
       json_paths = []\<rparr>"
    by (simp add: eval_defs)
  have 1: "dict_get (mapping ?s) (ascii ''AB'') = Some (ascii ''[MASK_00000002]'')"
    unfolding s by (simp add: eval_defs)
  have hA: "dict_get (mapping ?s) (ascii ''A'') = Some (ascii ''[MASK_00000001]'')"
    unfolding s by (simp add: eval_defs)
  have 2: "ascii ''AB'' \<noteq> []" by (simp add: ascii_def)
  have 3: "mask_findall ([] @ ascii ''AB'' @ []) = []" by (simp add: eval_defs)
  have hx: "mask_findall (ascii ''x'' @ ascii ''AB'' @ []) = []" by (simp add: eval_defs)
  have 4: "\<forall>k \<in> set (map fst (mapping ?s)). prefix k (ascii ''AB'' @ []) \<longrightarrow>
      length k \<le> length (ascii ''AB'')"
    unfolding s by (simp add: ascii_def)
  have 5: "\<forall>i < length (ascii ''x''). \<forall>k \<in> set (map fst (mapping ?s)).
      \<not> prefix k (drop i (ascii ''x'' @ ascii ''AB'' @ []))"
    unfolding s by (simp add: ascii_def)
  have 6: "mask_findall (ascii ''xy'') = []" by (simp add: eval_defs)
  have 7: "\<forall>i \<le> length (ascii ''xy''). \<forall>k \<in> set (map fst (mapping ?s)).
      \<not> prefix k (drop i (ascii ''xy''))"
    unfolding s by (simp add: ascii_def le_Suc_eq all_conj_distrib)
  have 8: "enc ?s [] = Inr []"
    unfolding s by (simp add: eval_defs)
  from enc_longest_match [of ?s "ascii ''AB''" "ascii ''[MASK_00000002]''" "[]" "[]" "ascii ''xy''"]
    1 2 3 4 6 7 8
  have a: "enc ?s (ascii ''AB'') = Inr (ascii ''[MASK_00000002]'')"
    and c: "enc ?s (ascii ''xy'') = Inr (ascii ''xy'')"
    by simp_all
  from enc_longest_match [of ?s "ascii ''AB''" "ascii ''[MASK_00000002]''" "ascii ''x''" "[]" "[]"]
    1 2 hx 4 5 8
  have b: "enc ?s (ascii ''x'' @ ascii ''AB'') = Inr (ascii ''x'' @ ascii ''[MASK_00000002]'')"
    by simp
  have "ascii ''x'' @ ascii ''AB'' = ascii ''xAB''"
    "ascii ''x'' @ ascii ''[MASK_00000002]'' = ascii ''x[MASK_00000002]''"
    by (simp_all add: ascii_def)
  with a b c 1 hA show ?thesis by simp
qed

text \<open>
  C4. \<open>_dec\<close> replaces a well-formed token that is a key of the reverse map by its word,
  leaves a well-formed token that is not a key as it is, and returns a result on every
  text: around a token, unmasking is unmasking the two sides separately.
\<close>

theorem dec_token:
  assumes "is_token t"
  shows "\<exists>a' b'. dec s a = Inr a' \<and> dec s b = Inr b' \<and>
     dec s (a @ t @ b) =
       Inr (a' @ (case dict_get (reverse s) t of Some w \<Rightarrow> w | None \<Rightarrow> t) @ b')"
  using assms by (simp add: dec_def mask_sub_token repl_def)

theorem dec_token_witness:
  "is_token (ascii ''[MASK_00000001]'') \<and>
   dec \<lparr>mapping = [(ascii ''A'', ascii ''[MASK_00000001]'')],
        reverse = [(ascii ''[MASK_00000001]'', ascii ''A'')], json_paths = []\<rparr>
     (ascii ''x[MASK_00000001]y[MASK_FFFFFFFF]'') = Inr (ascii ''xAy[MASK_FFFFFFFF]'')"
proof -
  let ?s = "\<lparr>mapping = [(ascii ''A'', ascii ''[MASK_00000001]'')],
        reverse = [(ascii ''[MASK_00000001]'', ascii ''A'')], json_paths = []\<rparr>"
  have tok: "is_token (ascii ''[MASK_00000001]'')"
    by (simp add: eval_defs)
  have a: "dec ?s (ascii ''x'') = Inr (ascii ''x'')"
    by (simp add: eval_defs)
  have b: "dec ?s (ascii ''y[MASK_FFFFFFFF]'') = Inr (ascii ''y[MASK_FFFFFFFF]'')"
    by (simp add: eval_defs)
  have "ascii ''x[MASK_00000001]y[MASK_FFFFFFFF]'' =
      ascii ''x'' @ ascii ''[MASK_00000001]'' @ ascii ''y[MASK_FFFFFFFF]''"
    by (simp add: ascii_def)
  with dec_token [OF tok, of ?s "ascii ''x''" "ascii ''y[MASK_FFFFFFFF]''"] a b tok
  show ?thesis by (simp add: eval_defs)
qed

text \<open>
  C5. \<open>build\<close> is idempotent: a second \<open>build\<close> with the same words changes nothing
  and draws no random value, whatever the random source then is. Every word that was a
  key before keeps its token, and the keys of both dictionaries stay without duplicates.
\<close>

theorem build_idempotent:
  assumes "distinct (map fst (mapping s))" and "distinct (map fst (reverse s))"
  shows "build (fst (build s W g)) W g' = (fst (build s W g), g') \<and>
    (\<forall>k t. dict_get (mapping s) k = Some t \<longrightarrow>
             dict_get (mapping (fst (build s W g))) k = Some t) \<and>
    distinct (map fst (mapping (fst (build s W g)))) \<and>
    distinct (map fst (reverse (fst (build s W g))))"
proof -
  have "\<forall>w0 \<in> set W. strip w0 = [] \<or>
      dict_get (mapping (fst (build s W g))) (strip w0) \<noteq> None"
    using build_covers by blast
  then have "build (fst (build s W g)) W g' = (fst (build s W g), g')"
    by (rule build_fixpoint)
  with build_keeps build_distinct [OF assms] show ?thesis by blast
qed

theorem build_idempotent_witness:
  "distinct (map fst (mapping (fst (build new_scrubber [ascii ''A''] sample_rng)))) \<and>
   distinct (map fst (reverse (fst (build new_scrubber [ascii ''A''] sample_rng)))) \<and>
   build (fst (build (fst (build new_scrubber [ascii ''A''] sample_rng))
                 [ascii '' AB '', ascii ''A''] (\<lambda>n. sample_rng (Suc n))))
     [ascii '' AB '', ascii ''A''] sample_rng =
     (\<lparr>mapping = [(ascii ''A'', ascii ''[MASK_00000001]''), (ascii ''AB'', ascii ''[MASK_00000002]'')],
       reverse = [(ascii ''[MASK_00000001]'', ascii ''A''), (ascii ''[MASK_00000002]'', ascii ''AB'')],
       json_paths = []\<rparr>, sample_rng)"
proof -
  let ?s = "fst (build new_scrubber [ascii ''A''] sample_rng)"
  have s: "?s = \<lparr>mapping = [(ascii ''A'', ascii ''[MASK_00000001]'')],
      reverse = [(ascii ''[MASK_00000001]'', ascii ''A'')], json_paths = []\<rparr>"
    by (simp add: eval_defs)
  have d1: "distinct (map fst (mapping ?s))" and d2: "distinct (map fst (reverse ?s))"
    unfolding s by simp_all
  have b: "fst (build ?s [ascii '' AB '', ascii ''A''] (\<lambda>n. sample_rng (Suc n))) =
      \<lparr>mapping = [(ascii ''A'', ascii ''[MASK_00000001]''), (ascii ''AB'', ascii ''[MASK_00000002]'')],
       reverse = [(ascii ''[MASK_00000001]'', ascii ''A''), (ascii ''[MASK_00000002]'', ascii ''AB'')],
       json_paths = []\<rparr>"
    unfolding s by (simp add: eval_defs)
  from build_idempotent [OF d1 d2, of "[ascii '' AB '', ascii ''A'']" "\<lambda>n. sample_rng (Suc n)" sample_rng]
  show ?thesis using d1 d2 unfolding b by simp
qed

text \<open>
  C1 as stated fails on a text that holds the token of a mapped word: with \<open>A\<close> mapped
  to \<open>[MASK_00000001]\<close>, the text \<open>A[MASK_00000001]\<close> is masked to two such tokens
  and unmasked to \<open>AA\<close>. No word of the list matches the token pattern.
\<close>

theorem roundtrip_counterexample:
  "\<not> is_token (ascii ''A'') \<and>
   enc (fst (build new_scrubber [ascii ''A''] sample_rng)) (ascii ''A[MASK_00000001]'') =
     Inr (ascii ''[MASK_00000001][MASK_00000001]'') \<and>
   dec (fst (build new_scrubber [ascii ''A''] sample_rng)) (ascii ''[MASK_00000001][MASK_00000001]'') =
     Inr (ascii ''AA'') \<and>
   ascii ''AA'' \<noteq> ascii ''A[MASK_00000001]''"
proof -
  have s: "fst (build new_scrubber [ascii ''A''] sample_rng) =
      \<lparr>mapping = [(ascii ''A'', ascii ''[MASK_00000001]'')],
       reverse = [(ascii ''[MASK_00000001]'', ascii ''A'')], json_paths = []\<rparr>"
    by (simp add: eval_defs)
  show ?thesis unfolding s by (simp add: eval_defs)
qed

text \<open>
  It also fails when two words were given the same token: the reverse map keeps the
  later word, and the earlier one comes back as the later one.
\<close>

theorem roundtrip_collision_example:
  "enc (fst (build new_scrubber [ascii ''A'', ascii ''B''] (\<lambda>n. 0))) (ascii ''A'') =
     Inr (ascii ''[MASK_00000000]'') \<and>
   dec (fst (build new_scrubber [ascii ''A'', ascii ''B''] (\<lambda>n. 0))) (ascii ''[MASK_00000000]'') =
     Inr (ascii ''B'')"
proof -
  have s: "fst (build new_scrubber [ascii ''A'', ascii ''B''] (\<lambda>n. 0)) =
      \<lparr>mapping = [(ascii ''A'', ascii ''[MASK_00000000]''), (ascii ''B'', ascii ''[MASK_00000000]'')],
       reverse = [(ascii ''[MASK_00000000]'', ascii ''B'')], json_paths = []\<rparr>"
    by (simp add: eval_defs)
  show ?thesis unfolding s by (simp add: eval_defs)
qed

text \<open>
  C1, amended. Unmasking what was masked gives the text back when the mapping was built
  from a word list, no two of its words were given the same token, and the text holds
  no well-formed token that is a key of the reverse map.
\<close>

theorem roundtrip_built:
  assumes "s = fst (build new_scrubber W g)"
    and "distinct (map snd (mapping s))"
    and "\<forall>t \<in> set (mask_findall T). dict_get (reverse s) t = None"
  shows "\<exists>T'. enc s T = Inr T' \<and> dec s T' = Inr T"
proof -
  have inv: "store_inv s"
    unfolding assms(1) using store_inv_new by (rule store_inv_build)
  then have "[] \<notin> fst ` set (mapping s)" by (simp add: store_inv_def)
  moreover have "\<forall>w t. dict_get (mapping s) w = Some t \<longrightarrow>
      is_token t \<and> dict_get (reverse s) t = Some w"
  proof (intro allI impI)
    fix w t assume m: "dict_get (mapping s) w = Some t"
    then have "(w, t) \<in> set (mapping s)" by (simp add: dict_get_def map_of_SomeD)
    then have "is_token t" using inv by (force simp: store_inv_def)
    moreover have "dict_get (reverse s) t = Some w"
      using inv assms(2) m by (rule store_inv_reverse)
    ultimately show "is_token t \<and> dict_get (reverse s) t = Some w" by simp
  qed
  ultimately show ?thesis
    using assms(3) by (simp add: dec_def roundtrip_core)
qed

theorem roundtrip_built_witness:
  "distinct (map snd (mapping (fst (build new_scrubber
      [[0x5317, 0x4EAC], [0x5317, 0x4EAC, 0x5E02, 0x653F, 0x5E9C]] sample_rng)))) \<and>
   enc (fst (build new_scrubber [[0x5317, 0x4EAC], [0x5317, 0x4EAC, 0x5E02, 0x653F, 0x5E9C]] sample_rng))
     [0x5317, 0x4EAC, 0x5E02, 0x653F, 0x5E9C, 0x53D1, 0x5E03, 0x516C, 0x544A, 0xFF0C,
      0x5317, 0x4EAC, 0x8FCE, 0x6765, 0x964D, 0x96EA, 0x3002] =
     Inr (ascii ''[MASK_00000002]'' @ [0x53D1, 0x5E03, 0x516C, 0x544A, 0xFF0C] @
          ascii ''[MASK_00000001]'' @ [0x8FCE, 0x6765, 0x964D, 0x96EA, 0x3002]) \<and>
   dec (fst (build new_scrubber [[0x5317, 0x4EAC], [0x5317, 0x4EAC, 0x5E02, 0x653F, 0x5E9C]] sample_rng))
     (ascii ''[MASK_00000002]'' @ [0x53D1, 0x5E03, 0x516C, 0x544A, 0xFF0C] @
      ascii ''[MASK_00000001]'' @ [0x8FCE, 0x6765, 0x964D, 0x96EA, 0x3002]) =
     Inr [0x5317, 0x4EAC, 0x5E02, 0x653F, 0x5E9C, 0x53D1, 0x5E03, 0x516C, 0x544A, 0xFF0C,
      0x5317, 0x4EAC, 0x8FCE, 0x6765, 0x964D, 0x96EA, 0x3002]"
proof -
  let ?W = "[[0x5317, 0x4EAC], [0x5317, 0x4EAC, 0x5E02, 0x653F, 0x5E9C :: nat]]"
  let ?T = "[0x5317, 0x4EAC, 0x5E02, 0x653F, 0x5E9C, 0x53D1, 0x5E03, 0x516C, 0x544A, 0xFF0C,
      0x5317, 0x4EAC, 0x8FCE, 0x6765, 0x964D, 0x96EA, 0x3002 :: nat]"
  let ?s = "fst (build new_scrubber ?W sample_rng)"
  have s: "?s = \<lparr>mapping = [([0x5317, 0x4EAC], ascii ''[MASK_00000001]''),
                          ([0x5317, 0x4EAC, 0x5E02, 0x653F, 0x5E9C], ascii ''[MASK_00000002]'')],
       reverse = [(ascii ''[MASK_00000001]'', [0x5317, 0x4EAC]),
                  (ascii ''[MASK_00000002]'', [0x5317, 0x4EAC, 0x5E02, 0x653F, 0x5E9C])],
       json_paths = []\<rparr>"
    by (simp add: eval_defs)
  have 1: "distinct (map snd (mapping ?s))"
    unfolding s by (simp add: ascii_def)
  have 2: "\<forall>t \<in> set (mask_findall ?T). dict_get (reverse ?s) t = None"
    by (simp add: eval_defs)
  have e: "enc ?s ?T = Inr (ascii ''[MASK_00000002]'' @ [0x53D1, 0x5E03, 0x516C, 0x544A, 0xFF0C] @
          ascii ''[MASK_00000001]'' @ [0x8FCE, 0x6765, 0x964D, 0x96EA, 0x3002])"
    unfolding s by (simp add: eval_defs)
  from roundtrip_built [OF refl 1 2] e 1 show ?thesis by auto
qed

section \<open>The claims about the snapshot and the batch\<close>

text \<open>
  C6. Snapshot round trip: what \<open>save\<close> wrote, \<open>load\<close> reads into a fresh store as the
  same two dictionaries, entry for entry and in the same order. The keys of a
  dictionary are distinct.
\<close>

theorem snapshot_roundtrip:
  assumes "distinct (map fst (mapping s))" and "distinct (map fst (reverse s))"
    and "save s w p = (Inr mp, s', w')"
  shows "\<exists>s2. load new_scrubber w' mp = Loaded s2 \<and>
     mapping s2 = mapping s \<and> reverse s2 = reverse s"
proof -
  from assms(3) have "fs w' mp = Some (JsonFile (snapshot s))"
    by (auto dest: save_Inr)
  then have "load new_scrubber w' mp =
      Loaded (new_scrubber\<lparr>mapping := dict_update (mapping new_scrubber) (mapping s),
                           reverse := dict_update (reverse new_scrubber) (reverse s)\<rparr>)"
    by (rule load_snapshot)
  with assms(1,2) show ?thesis
    by (simp add: new_scrubber_def dict_update_empty)
qed

theorem snapshot_roundtrip_witness:
  "distinct (map fst [(ascii ''A'', ascii ''[MASK_00000001]'')]) \<and>
   (\<exists>s2. load new_scrubber
       (snd (snd (save \<lparr>mapping = [(ascii ''A'', ascii ''[MASK_00000001]'')],
                         reverse = [(ascii ''[MASK_00000001]'', ascii ''A'')], json_paths = []\<rparr>
                    sample_world (ascii ''out.txt''))))
       (ascii ''./out_mask_mapping.json'') = Loaded s2 \<and>
     mapping s2 = [(ascii ''A'', ascii ''[MASK_00000001]'')] \<and>
     reverse s2 = [(ascii ''[MASK_00000001]'', ascii ''A'')])"
proof -
  let ?s = "\<lparr>mapping = [(ascii ''A'', ascii ''[MASK_00000001]'')],
              reverse = [(ascii ''[MASK_00000001]'', ascii ''A'')], json_paths = []\<rparr>"
  have d1: "distinct (map fst (mapping ?s))" and d2: "distinct (map fst (reverse ?s))"
    by simp_all
  obtain r s' w' where sv: "save ?s sample_world (ascii ''out.txt'') = (r, s', w')"
    by (cases "save ?s sample_world (ascii ''out.txt'')") auto
  then have r: "r = Inr (ascii ''./out_mask_mapping.json'')"
    by (simp add: eval_world eval_defs)
  from snapshot_roundtrip [OF d1 d2 sv [unfolded r]] sv show ?thesis
    by simp
qed

text \<open>
  C8 as stated fails: \<open>load\<close> does not fail on everything that is not a valid snapshot.
  The JSON object \<open>{}\<close> has neither member; both \<open>d.get\<close> fall back to \<open>{}\<close> and the
  store stays as it was.
\<close>

theorem load_counterexample:
  "\<not> valid_snapshot (JObj []) \<and>
   load \<lparr>mapping = [(ascii ''A'', ascii ''[MASK_00000001]'')],
         reverse = [(ascii ''[MASK_00000001]'', ascii ''A'')], json_paths = []\<rparr>
     (sample_world\<lparr>fs := [ascii ''m.json'' \<mapsto> JsonFile (JObj [])]\<rparr>) (ascii ''m.json'') =
     Loaded \<lparr>mapping = [(ascii ''A'', ascii ''[MASK_00000001]'')],
         reverse = [(ascii ''[MASK_00000001]'', ascii ''A'')], json_paths = []\<rparr>"
  by (simp add: eval_world eval_defs)

text \<open>
  C8, amended. On a valid snapshot \<open>load\<close> returns, and it merges: the store gets the
  entries of the snapshot by \<open>dict.update\<close>, so an entry whose key the snapshot does not
  have stays as it was and an entry of the snapshot is in the store afterwards. \<open>load\<close>
  can therefore raise only on what is not a valid snapshot.
\<close>

theorem load_valid_merges:
  assumes "fs w p = Some (JsonFile j)" and "valid_snapshot j"
  shows "\<exists>kvs m r.
     j = JObj kvs \<and> map_of kvs (ascii ''mapping'') = Some (dict_json m) \<and>
     (map_of kvs (ascii ''reverse'') = Some (dict_json r) \<or>
      map_of kvs (ascii ''reverse'') = None \<and>
      map_of kvs (ascii ''reverse_mapping'') = Some (dict_json r)) \<and>
     load s w p = Loaded (s\<lparr>mapping := dict_update (mapping s) m,
                             reverse := dict_update (reverse s) r\<rparr>) \<and>
     (\<forall>k. k \<notin> fst ` set m \<longrightarrow> dict_get (dict_update (mapping s) m) k = dict_get (mapping s) k) \<and>
     (\<forall>k v. distinct (map fst m) \<longrightarrow> (k, v) \<in> set m \<longrightarrow>
        dict_get (dict_update (mapping s) m) k = Some v) \<and>
     (\<forall>k. k \<notin> fst ` set r \<longrightarrow> dict_get (dict_update (reverse s) r) k = dict_get (reverse s) k) \<and>
     (\<forall>k v. distinct (map fst r) \<longrightarrow> (k, v) \<in> set r \<longrightarrow>
        dict_get (dict_update (reverse s) r) k = Some v)"
proof -
  from assms(2) obtain kvs where j: "j = JObj kvs"
    by (cases j) (auto simp: valid_snapshot_def)
  from assms(2) j obtain m where m: "map_of kvs (ascii ''mapping'') = Some (dict_json m)"
    by (auto simp: valid_snapshot_def is_str_dict_iff split: option.splits)
  from assms(2) j obtain r where r: "map_of kvs (ascii ''reverse'') = Some (dict_json r) \<or>
      map_of kvs (ascii ''reverse'') = None \<and>
      map_of kvs (ascii ''reverse_mapping'') = Some (dict_json r)"
    by (auto simp: valid_snapshot_def is_str_dict_iff split: option.splits)
  have "load s w p = Loaded (s\<lparr>mapping := dict_update (mapping s) m,
                             reverse := dict_update (reverse s) r\<rparr>)"
    using assms(1) j m r
    by (auto simp: load_def read_json_def json_get_def update_arg_dict_json)
  with j m r show ?thesis
    using dict_update_other dict_update_member by blast
qed

theorem load_valid_merges_witness:
  "valid_snapshot (JObj [(ascii ''mapping'', JObj [(ascii ''B'', JStr (ascii ''[MASK_00000002]''))]),
                        (ascii ''reverse'', JObj [(ascii ''[MASK_00000002]'', JStr (ascii ''B''))])]) \<and>
   load \<lparr>mapping = [(ascii ''A'', ascii ''[MASK_00000001]'')],
         reverse = [(ascii ''[MASK_00000001]'', ascii ''A'')], json_paths = []\<rparr>
     (sample_world\<lparr>fs := [ascii ''m.json'' \<mapsto> JsonFile
        (JObj [(ascii ''mapping'', JObj [(ascii ''B'', JStr (ascii ''[MASK_00000002]''))]),
               (ascii ''reverse'', JObj [(ascii ''[MASK_00000002]'', JStr (ascii ''B''))])])]\<rparr>)
     (ascii ''m.json'') =
     Loaded \<lparr>mapping = [(ascii ''A'', ascii ''[MASK_00000001]''), (ascii ''B'', ascii ''[MASK_00000002]'')],
         reverse = [(ascii ''[MASK_00000001]'', ascii ''A''), (ascii ''[MASK_00000002]'', ascii ''B'')],
         json_paths = []\<rparr>"
proof -
  let ?j = "JObj [(ascii ''mapping'', JObj [(ascii ''B'', JStr (ascii ''[MASK_00000002]''))]),
                  (ascii ''reverse'', JObj [(ascii ''[MASK_00000002]'', JStr (ascii ''B''))])]"
  let ?w = "sample_world\<lparr>fs := [ascii ''m.json'' \<mapsto> JsonFile ?j]\<rparr>"
  have f: "fs ?w (ascii ''m.json'') = Some (JsonFile ?j)" by simp
  have v: "valid_snapshot ?j" by (simp add: eval_world eval_defs)
  from load_valid_merges [OF f v] v show ?thesis
    by (simp add: eval_world eval_defs)
qed




text \<open>
  C10 as stated fails when the callback raises after a success: the call stands inside
  the \<open>try\<close>, so the \<open>except\<close> branch appends a failure for the file whose success is
  already in the list, and one file has two entries.
\<close>

theorem batch_outcomes_counterexample:
  "fst (batch new_scrubber sample_rng sample_world [ascii ''a.txt''] []
          (ascii ''dec'') (Some (cb_fails_on tag_done))) =
     Inr [(ascii ''a.txt'', Some (ascii ''./a_'' @ [0x89E3, 0x5BC6] @ ascii ''.txt''), None, None),
          (ascii ''a.txt'', None, Some TypeError, None)]"
  by (simp add: eval_world eval_defs)

text \<open>
  C10, amended. When the callback is absent or returns from every call, \<open>batch\<close> returns
  a list with one entry for every file, in the order of the files. A success is
  \<open>(fp, dst, None, mp)\<close> with \<open>dst\<close> the output path and \<open>mp\<close> the path \<open>save\<close> wrote the
  snapshot to in mask mode, \<open>None\<close> in unmask mode; a failure has neither an output path
  nor a snapshot path.
\<close>

theorem batch_outcomes:
  assumes "cb_returns cb"
  shows "\<exists>rs s' g' w'. batch s g w files words mode cb = (Inr rs, s', g', w') \<and>
     map fst rs = files \<and>
     (\<forall>(fp, out, err, mp) \<in> set rs.
        (err = None \<longrightarrow> out = Some (dst_path fp mode) \<and>
           mp = (if is_enc mode then Some (mapping_path (dst_path fp mode)) else None)) \<and>
        (err \<noteq> None \<longrightarrow> out = None \<and> mp = None))"
  using assms by (rule batch_returns)

theorem batch_outcomes_witness:
  "fst (batch new_scrubber sample_rng sample_world [ascii ''a.txt'', ascii ''c.txt'']
          [ascii ''A'', ascii ''AB''] (ascii ''enc'') None) =
     Inr [(ascii ''a.txt'', Some (ascii ''./a_'' @ [0x52A0, 0x5BC6] @ ascii ''.txt''), None,
           Some (ascii ''./a_'' @ [0x52A0, 0x5BC6] @ ascii ''_mask_mapping.json'')),
          (ascii ''c.txt'', Some (ascii ''./c_'' @ [0x52A0, 0x5BC6] @ ascii ''.txt''), None,
           Some (ascii ''./c_'' @ [0x52A0, 0x5BC6] @ ascii ''_mask_mapping.json''))]"
proof -
  let ?b = "batch new_scrubber sample_rng sample_world [ascii ''a.txt'', ascii ''c.txt'']
          [ascii ''A'', ascii ''AB''] (ascii ''enc'') None"
  from batch_outcomes [OF cb_returns_None, of new_scrubber sample_rng sample_world
      "[ascii ''a.txt'', ascii ''c.txt'']" "[ascii ''A'', ascii ''AB'']" "ascii ''enc''"]
  obtain rs s' g' w' where h: "?b = (Inr rs, s', g', w')"
    and m: "map fst rs = [ascii ''a.txt'', ascii ''c.txt'']"
    and sh: "\<forall>(fp, out, err, mp) \<in> set rs.
        (err = None \<longrightarrow> out = Some (dst_path fp (ascii ''enc'')) \<and>
           mp = (if is_enc (ascii ''enc'') then Some (mapping_path (dst_path fp (ascii ''enc''))) else None)) \<and>
        (err \<noteq> None \<longrightarrow> out = None \<and> mp = None)"
    by (elim exE conjE) (rule that)
  have "fail_results rs = []"
    using h by (auto simp: eval_world eval_defs)
  then have ok: "\<forall>r \<in> set rs. fst (snd (snd r)) = None"
    by (auto simp: fail_results_def filter_empty_conv)
  from m obtain r1 r2 where rs: "rs = [r1, r2]" "fst r1 = ascii ''a.txt''" "fst r2 = ascii ''c.txt''"
    by (auto simp: map_eq_Cons_conv)
  obtain o1 e1 m1 o2 e2 m2 where r: "r1 = (ascii ''a.txt'', o1, e1, m1)" "r2 = (ascii ''c.txt'', o2, e2, m2)"
    using rs(2,3) by (cases r1, cases r2) auto
  from ok rs r have "e1 = None" "e2 = None" by auto
  with sh rs r have "o1 = Some (dst_path (ascii ''a.txt'') (ascii ''enc''))"
    "m1 = Some (mapping_path (dst_path (ascii ''a.txt'') (ascii ''enc'')))"
    "o2 = Some (dst_path (ascii ''c.txt'') (ascii ''enc''))"
    "m2 = Some (mapping_path (dst_path (ascii ''c.txt'') (ascii ''enc'')))"
    by (auto simp: is_enc_def)
  with h rs r \<open>e1 = None\<close> \<open>e2 = None\<close> show ?thesis
    by (simp add: eval_world eval_defs)
qed

text \<open>
  C9 as stated fails for \<open>batch\<close>: in mask mode with an empty word list and an empty
  store it is not rejected; the file is processed and its outcome comes back.
\<close>

theorem empty_words_counterexample:
  "fst (batch new_scrubber sample_rng sample_world [ascii ''a.txt''] [] (ascii ''enc'') None) =
     Inr [(ascii ''a.txt'', Some (ascii ''./a_'' @ [0x52A0, 0x5BC6] @ ascii ''.txt''), None,
       Some (ascii ''./a_'' @ [0x52A0, 0x5BC6] @ ascii ''_mask_mapping.json''))]"
  by (simp add: eval_world eval_defs)

text \<open>
  C9, amended. The empty word list is caught by the caller, not by \<open>batch\<close>: \<open>_run\<close> in
  mask mode with files but without words shows a warning and returns with nothing
  changed; \<open>batch\<close> with an empty word list adds no word to the store and draws no random
  value, and when the callback is absent or returns it gives back a list with one entry
  for every file.
\<close>

theorem empty_words_not_rejected:
  shows "(is_enc mode \<and> enc_files a \<noteq> [] \<and> words_of (word_box a) = [] \<longrightarrow>
       run a g w mode ans jp gui =
         (ShowWarning [0x8BF7, 0x586B, 0x5199, 0x654F, 0x611F, 0x8BCD, 0x3002], a, g, w)) \<and>
     (batch s g w files [] mode cb = (r, s', g', w') \<longrightarrow>
        g' = g \<and> mapping s' = mapping s \<and> reverse s' = reverse s \<and>
        (cb_returns cb \<longrightarrow> (\<exists>rs. r = Inr rs \<and> map fst rs = files)))"
proof -
  have "run a g w mode ans jp gui =
      (ShowWarning [0x8BF7, 0x586B, 0x5199, 0x654F, 0x611F, 0x8BCD, 0x3002], a, g, w)"
    if "is_enc mode" "enc_files a \<noteq> []" "words_of (word_box a) = []"
    using that by (cases "enc_files a") (simp_all add: run_def)
  moreover have "g' = g \<and> mapping s' = mapping s \<and> reverse s' = reverse s \<and>
      (cb_returns cb \<longrightarrow> (\<exists>rs. r = Inr rs \<and> map fst rs = files))"
    if b: "batch s g w files [] mode cb = (r, s', g', w')"
  proof -
    from b have g: "g' = g" and
      l: "batch_loop cb (length files) 0 [] mode [] s w files = (r, s', w')"
      by (auto simp: batch_alt split: if_splits)
    have "\<exists>rs. r = Inr rs \<and> map fst rs = files" if "cb_returns cb"
    proof -
      from batch_returns [OF that, of s g w files "[]" mode]
      obtain rs s'' g'' w'' where "batch s g w files [] mode cb = (Inr rs, s'', g'', w'')"
        and "map fst rs = files"
        by (elim exE conjE) (rule that)
      with b show ?thesis by auto
    qed
    with g batch_loop_mapping [OF l] show ?thesis by blast
  qed
  ultimately show ?thesis by blast
qed

theorem empty_words_not_rejected_witness:
  "is_enc (ascii ''enc'') \<and>
   words_of [10] = [] \<and>
   run \<lparr>app_scrubber = new_scrubber, enc_files = [ascii ''a.txt''], dec_files = [],
        word_box = [10]\<rparr> sample_rng sample_world (ascii ''enc'') True [] quiet_cb =
     (ShowWarning [0x8BF7, 0x586B, 0x5199, 0x654F, 0x611F, 0x8BCD, 0x3002],
      \<lparr>app_scrubber = new_scrubber, enc_files = [ascii ''a.txt''], dec_files = [],
        word_box = [10]\<rparr>, sample_rng, sample_world) \<and>
   (\<exists>rs s' w'.
      batch new_scrubber sample_rng sample_world [ascii ''a.txt'', ascii ''b.txt''] []
        (ascii ''enc'') None = (Inr rs, s', sample_rng, w') \<and>
      map fst rs = [ascii ''a.txt'', ascii ''b.txt''] \<and> mapping s' = [] \<and> reverse s' = [])"
proof -
  let ?a = "\<lparr>app_scrubber = new_scrubber, enc_files = [ascii ''a.txt''], dec_files = [],
        word_box = [10]\<rparr>"
  let ?b = "batch new_scrubber sample_rng sample_world [ascii ''a.txt'', ascii ''b.txt''] []
        (ascii ''enc'') None"
  have 1: "is_enc (ascii ''enc'')" by (simp add: is_enc_def)
  have 2: "enc_files ?a \<noteq> []" by simp
  have 3: "words_of (word_box ?a) = []" by (simp add: eval_world eval_defs)
  obtain r s' g' w' where h: "?b = (r, s', g', w')"
    by (cases ?b) auto
  from empty_words_not_rejected [of "ascii ''enc''" ?a sample_rng sample_world True "[]" quiet_cb
      new_scrubber "[ascii ''a.txt'', ascii ''b.txt'']" None r s' g' w'] 1 2 3 h cb_returns_None
  show ?thesis by (auto simp: new_scrubber_def)
qed

end
